theory Spec2Isabelle
  imports Complex_Main
begin

section \<open>Identifiers, errors and settlements\<close>

text \<open>
  \<open>ScopeID\<close>, \<open>Ref\<close>, \<open>WorkerID\<close>, \<open>HandlerID\<close> and \<open>StreamID\<close> are plain strings in
  \<open>types/ids.ts\<close>. The generated ones come from \<open>Date.now()\<close> and \<open>Math.random()\<close>; the
  model takes every generated identifier as an argument of the operation that draws it.
\<close>

type_synonym ScopeID = string
type_synonym Ref = string
type_synonym WorkerID = string
type_synonym HandlerID = string
type_synonym StreamID = string

text \<open>The value a task function resolves with.\<close>

type_synonym val = string

text \<open>
  An \<open>Error\<close> object is either one that reaches the kernel from outside the method at
  hand (\<open>ExternalError\<close>: thrown by user code, or by the pool) or one the method builds
  itself with \<open>new Error(msg)\<close> (\<open>FreshError\<close>). What a function throws is an \<open>Error\<close>
  object or any other value, kept by its \<open>String(v)\<close>.
\<close>

datatype js_error = ExternalError string | FreshError string

datatype thrown = ThrownError js_error | ThrownValue string

text \<open>\<open>err instanceof Error ? err : new Error(String(err))\<close>\<close>

fun toError :: "thrown \<Rightarrow> js_error" where
  "toError (ThrownError e) = e"
| "toError (ThrownValue s) = FreshError s"

text \<open>
  How the promise an awaited user function returns settles: it resolves with a value
  or rejects with what was thrown.
\<close>

datatype 'a fn_outcome = Returned 'a | Threw thrown

text \<open>How a promise returned by the kernel settles.\<close>

datatype run_result = Resolved val | Rejected js_error

section \<open>ScopeFSM\<close>

datatype FSMState = INIT | ATTACHED | RUNNING | SUSPENDED | DISPOSING | DISPOSED

datatype FSMEvent = mounted | taskStarted | suspend | resume | dispose

text \<open>
  The \<open>switch\<close> of \<open>ScopeFSM.transition\<close>: one case per state, the \<open>if\<close>s of a case in
  the order of the source.
\<close>

fun fsm_switch :: "FSMState \<Rightarrow> FSMEvent \<Rightarrow> FSMState" where
  "fsm_switch INIT e = (if e = mounted then ATTACHED else INIT)"
| "fsm_switch ATTACHED e =
     (let s1 = (if e = taskStarted then RUNNING else ATTACHED)
      in if e = dispose then DISPOSING else s1)"
| "fsm_switch RUNNING e =
     (let s1 = (if e = suspend then SUSPENDED else RUNNING)
      in if e = dispose then DISPOSING else s1)"
| "fsm_switch SUSPENDED e =
     (let s1 = (if e = resume then RUNNING else SUSPENDED)
      in if e = dispose then DISPOSING else s1)"
| "fsm_switch DISPOSING e = DISPOSED"
| "fsm_switch DISPOSED e = DISPOSED"

text \<open>\<open>transition(event)\<close>: the new state, and whether it differs from the previous one.\<close>

definition transition :: "FSMEvent \<Rightarrow> FSMState \<Rightarrow> bool \<times> FSMState" where
  "transition e prev = (let s = fsm_switch prev e in (s \<noteq> prev, s))"

definition canExecute :: "FSMState \<Rightarrow> bool" where
  "canExecute s = (s = ATTACHED \<or> s = RUNNING)"

definition isAlive :: "FSMState \<Rightarrow> bool" where
  "isAlive s = (s \<noteq> DISPOSING \<and> s \<noteq> DISPOSED)"

section \<open>JavaScript Map, in insertion order\<close>

text \<open>
  \<open>Map.set\<close> overwrites the value of a key that is present and keeps its position;
  a new key goes to the end. \<open>Map.delete\<close> removes the key.
\<close>

fun map_set :: "'k \<Rightarrow> 'v \<Rightarrow> ('k \<times> 'v) list \<Rightarrow> ('k \<times> 'v) list" where
  "map_set k v [] = [(k, v)]"
| "map_set k v ((k', v') # m) = (if k' = k then (k, v) # m else (k', v') # map_set k v m)"

definition map_delete :: "'k \<Rightarrow> ('k \<times> 'v) list \<Rightarrow> ('k \<times> 'v) list" where
  "map_delete k m = filter (\<lambda>kv. fst kv \<noteq> k) m"

definition map_values :: "('k \<times> 'v) list \<Rightarrow> 'v list" where
  "map_values m = map snd m"

section \<open>Worker\<close>

datatype WorkerStatus = W_idle | W_running | W_terminated | W_failed

fun WorkerStatus_str :: "WorkerStatus \<Rightarrow> string" where
  "WorkerStatus_str W_idle = ''idle''"
| "WorkerStatus_str W_running = ''running''"
| "WorkerStatus_str W_terminated = ''terminated''"
| "WorkerStatus_str W_failed = ''failed''"

text \<open>
  The fields of class \<open>Worker\<close>; \<open>w_aborted\<close> is \<open>_abortController.signal.aborted\<close>.
  \<open>w_awaiting\<close> is not a field of the class: it records that \<open>start\<close> is suspended at
  \<open>await fn(signal)\<close>, which in the program is the pending continuation of the call.
\<close>

record Worker =
  w_id :: WorkerID
  w_taskRef :: Ref
  w_status :: WorkerStatus
  w_aborted :: bool
  w_error :: "js_error option"
  w_awaiting :: bool

definition new_Worker :: "WorkerID \<Rightarrow> Ref \<Rightarrow> Worker" where
  "new_Worker wid r =
     \<lparr>w_id = wid, w_taskRef = r, w_status = W_idle, w_aborted = False,
      w_error = None, w_awaiting = False\<rparr>"

definition Worker_isActive :: "Worker \<Rightarrow> bool" where
  "Worker_isActive w = (w_status w = W_idle \<or> w_status w = W_running)"

text \<open>
  \<open>Worker.start\<close> up to its \<open>await\<close>: the rejection when the worker is not idle, else
  the worker running and suspended.
\<close>

definition Worker_start_begin :: "Worker \<Rightarrow> js_error + Worker" where
  "Worker_start_begin w =
     (if w_status w \<noteq> W_idle
      then Inl (FreshError (''Cannot start worker: status is '' @ WorkerStatus_str (w_status w)))
      else Inr (w\<lparr>w_status := W_running, w_awaiting := True\<rparr>))"

text \<open>
  \<open>Worker.start\<close> from the settlement of \<open>fn(signal)\<close> on: the worker, and the error
  the promise of \<open>start\<close> rejects with (\<open>None\<close>: it resolves).
  The call \<open>fn(signal)\<close> stands inside the \<open>try\<close>, so a throw at the call is caught like
  a rejection: both are \<open>Threw\<close> here.
\<close>

fun Worker_start_settle :: "unit fn_outcome \<Rightarrow> Worker \<Rightarrow> Worker \<times> js_error option" where
  "Worker_start_settle (Returned u) w =
     ((if w_status w = W_running then w\<lparr>w_status := W_terminated\<rparr> else w)
        \<lparr>w_awaiting := False\<rparr>, None)"
| "Worker_start_settle (Threw x) w =
     (if w_aborted w
      then (w\<lparr>w_status := W_terminated, w_awaiting := False\<rparr>, None)
      else (w\<lparr>w_status := W_failed, w_error := Some (toError x), w_awaiting := False\<rparr>,
            Some (toError x)))"

definition Worker_terminate :: "Worker \<Rightarrow> Worker" where
  "Worker_terminate w =
     (if \<not> Worker_isActive w then w
      else w\<lparr>w_aborted := True, w_status := W_terminated\<rparr>)"

section \<open>Handler and Stream, as far as a task reaches into them\<close>

datatype HandlerStatus = H_pending | H_running | H_completed | H_failed | H_cancelled

record Handler =
  h_id :: HandlerID
  h_taskRef :: Ref
  h_status :: HandlerStatus
  h_fn_set :: bool
  h_error :: "js_error option"
  h_cancelled :: bool

definition new_Handler :: "HandlerID \<Rightarrow> Ref \<Rightarrow> Handler" where
  "new_Handler hid r =
     \<lparr>h_id = hid, h_taskRef = r, h_status = H_pending, h_fn_set = False,
      h_error = None, h_cancelled = False\<rparr>"

definition Handler_setFunction :: "Handler \<Rightarrow> js_error + Handler" where
  "Handler_setFunction h =
     (if h_fn_set h then Inl (FreshError ''Handler function already set'')
      else Inr (h\<lparr>h_fn_set := True\<rparr>))"

definition Handler_cancel :: "Handler \<Rightarrow> Handler" where
  "Handler_cancel h =
     (if h_status h = H_completed \<or> h_status h = H_failed then h
      else let h1 = h\<lparr>h_cancelled := True\<rparr>
           in if h_status h1 = H_pending then h1\<lparr>h_status := H_cancelled\<rparr> else h1)"

datatype StreamStatus = S_open | S_closed | S_aborted

text \<open>Subscribers are functions; the model keeps them by a number.\<close>

record Stream =
  s_id :: StreamID
  s_taskRef :: Ref
  s_status :: StreamStatus
  s_subscribers :: "nat list"
  s_buffer :: "val list"

definition new_Stream :: "StreamID \<Rightarrow> Ref \<Rightarrow> Stream" where
  "new_Stream sid r =
     \<lparr>s_id = sid, s_taskRef = r, s_status = S_open, s_subscribers = [], s_buffer = []\<rparr>"

definition Stream_abort :: "Stream \<Rightarrow> Stream" where
  "Stream_abort s =
     (if s_status s \<noteq> S_open then s
      else s\<lparr>s_status := S_aborted, s_subscribers := []\<rparr>)"

section \<open>Task\<close>

datatype TaskStatus = pending | running | success | error | aborted

datatype TaskOutcome = O_success | O_error | O_aborted

fun TaskStatus_str :: "TaskStatus \<Rightarrow> string" where
  "TaskStatus_str pending = ''pending''"
| "TaskStatus_str running = ''running''"
| "TaskStatus_str success = ''success''"
| "TaskStatus_str error = ''error''"
| "TaskStatus_str aborted = ''aborted''"

text \<open>The three branches of \<open>run\<close> that await the function.\<close>

datatype run_path = Deferred | Pooled | Direct

text \<open>
  The fields of class \<open>Task\<close>. \<open>t_signal_aborted\<close> is \<open>_controller.signal.aborted\<close>,
  \<open>t_hasPool\<close> is \<open>_workerPool !== null\<close>. Worker objects live in \<open>t_worker_objs\<close>, in
  the order of their creation, and \<open>t_workers\<close> is the Map from worker id to the
  object's index there: a handle returned by \<open>spawnWorker\<close> and the continuation of
  \<open>Worker.start\<close> keep their object also when the Map entry of its id is overwritten.
  \<open>t_awaiting\<close> is not a field of the class: it records that \<open>run\<close> is suspended at one
  of its three \<open>await\<close>s, and at which.
\<close>

record Task =
  t_ref :: Ref
  t_scopeId :: ScopeID
  t_signal_aborted :: bool
  t_hasPool :: bool
  t_status :: TaskStatus
  t_outcome :: "TaskOutcome option"
  t_error :: "js_error option"
  t_result :: "val option"
  t_worker_objs :: "Worker list"
  t_workers :: "(WorkerID \<times> nat) list"
  t_handlers :: "(HandlerID \<times> Handler) list"
  t_streams :: "(StreamID \<times> Stream) list"
  t_awaiting :: "run_path option"

text \<open>
  \<open>new Task(scopeId, workerPool, ref)\<close>; \<open>gen\<close> is what \<open>generateRef()\<close> returns, used
  only when no ref is passed.
\<close>

definition new_Task :: "ScopeID \<Rightarrow> bool \<Rightarrow> Ref option \<Rightarrow> Ref \<Rightarrow> Task" where
  "new_Task sid pool r gen =
     \<lparr>t_ref = (case r of Some x \<Rightarrow> x | None \<Rightarrow> gen), t_scopeId = sid,
      t_signal_aborted = False, t_hasPool = pool, t_status = pending, t_outcome = None,
      t_error = None, t_result = None, t_worker_objs = [], t_workers = [],
      t_handlers = [], t_streams = [], t_awaiting = None\<rparr>"

definition Task_isActive :: "Task \<Rightarrow> bool" where
  "Task_isActive t = (t_status t = pending \<or> t_status t = running)"

definition Task_isComplete :: "Task \<Rightarrow> bool" where
  "Task_isComplete t = (\<not> Task_isActive t)"

text \<open>\<open>effect(fn)\<close>: the guard; \<open>fn()\<close> itself is the caller's code.\<close>

definition Task_effect :: "Task \<Rightarrow> js_error option" where
  "Task_effect t =
     (if \<not> Task_isActive t then Some (FreshError ''Cannot execute effect: task is not active'')
      else None)"

text \<open>The \<open>catch\<close> block of \<open>run\<close>: the task, and the error \<open>run\<close> rejects with.\<close>

definition Task_run_catch :: "thrown \<Rightarrow> Task \<Rightarrow> Task \<times> js_error" where
  "Task_run_catch err t =
     (let t1 = (if t_signal_aborted t
                then t\<lparr>t_status := aborted, t_outcome := Some O_aborted\<rparr>
                else t\<lparr>t_status := error, t_outcome := Some O_error,
                       t_error := Some (toError err)\<rparr>)
      in (t1, case t_error t1 of Some e \<Rightarrow> e | None \<Rightarrow> FreshError ''Task was aborted''))"

text \<open>
  \<open>run(fn, options)\<close> up to its \<open>await\<close>. \<open>Some e\<close>: the promise is rejected with \<open>e\<close>
  and the function was not called; \<open>None\<close>: \<open>run\<close> is suspended, awaiting the function
  on the path the options and the pool select.
\<close>

definition Task_run_begin :: "bool \<Rightarrow> Task \<Rightarrow> Task \<times> js_error option" where
  "Task_run_begin deferred t =
     (if t_status t \<noteq> pending
      then (t, Some (FreshError (''Cannot run task: status is '' @ TaskStatus_str (t_status t))))
      else let t1 = t\<lparr>t_status := running\<rparr> in
        if t_signal_aborted t1
        then (let (t2, e) = Task_run_catch (ThrownError (FreshError ''Task was aborted''))
                              (t1\<lparr>t_status := aborted, t_outcome := Some O_aborted\<rparr>)
              in (t2, Some e))
        else (t1\<lparr>t_awaiting :=
                    Some (if deferred then Deferred else if t_hasPool t1 then Pooled else Direct)\<rparr>,
              None))"

text \<open>
  What the promise \<open>run\<close> awaits settles with when the promise the function returned
  settles with \<open>oc\<close>: the same, on the direct path by \<open>await\<close> itself and on the
  deferred path by \<open>fn().then(resolve).catch(reject)\<close>, except that
  \<open>WorkerPool._dispatchWork\<close> rejects with
  \<open>error instanceof Error ? error : new Error(String(error))\<close>.
\<close>

fun awaited :: "run_path \<Rightarrow> val fn_outcome \<Rightarrow> val fn_outcome" where
  "awaited Pooled (Threw x) = Threw (ThrownError (toError x))"
| "awaited p oc = oc"

text \<open>
  What the promise \<open>run\<close> awaits settles with when the function throws \<open>x\<close> at its
  call, before it returns a promise. On the direct path the call \<open>await fn(ctx)\<close>
  stands inside the \<open>try\<close> of \<open>run\<close>; in the pool it stands inside a \<open>then\<close> callback,
  whose rejection \<open>_dispatchWork\<close> forwards. In \<open>_runDeferred\<close> the call \<open>fn()\<close> stands
  in a timer or idle callback with nothing around it: the exception leaves to the
  event loop, neither \<open>resolve\<close> nor \<open>reject\<close> is ever called, and the promise never
  settles (\<open>None\<close>).
\<close>

fun thrown_at_call :: "run_path \<Rightarrow> thrown \<Rightarrow> val fn_outcome option" where
  "thrown_at_call Direct x = Some (Threw x)"
| "thrown_at_call Pooled x = Some (Threw (ThrownError (toError x)))"
| "thrown_at_call Deferred x = None"

text \<open>\<open>run\<close> from the settlement of the awaited promise on.\<close>

fun Task_run_settle :: "val fn_outcome \<Rightarrow> Task \<Rightarrow> Task \<times> run_result" where
  "Task_run_settle (Returned v) t =
     (if t_signal_aborted t
      then (let (t2, e) = Task_run_catch (ThrownError (FreshError ''Task was aborted''))
                            (t\<lparr>t_status := aborted, t_outcome := Some O_aborted\<rparr>)
            in (t2\<lparr>t_awaiting := None\<rparr>, Rejected e))
      else (t\<lparr>t_result := Some v, t_status := success, t_outcome := Some O_success,
              t_awaiting := None\<rparr>, Resolved v))"
| "Task_run_settle (Threw x) t =
     (let (t2, e) = Task_run_catch x t in (t2\<lparr>t_awaiting := None\<rparr>, Rejected e))"

text \<open>
  \<open>abort()\<close>, which walks the three maps of owned units. Raising the signal runs the
  \<open>abort\<close> listeners user code has attached to it; the model takes them not to call
  back into the kernel.
\<close>

definition terminate_workers :: "nat list \<Rightarrow> Worker list \<Rightarrow> Worker list" where
  "terminate_workers ixs objs =
     fold (\<lambda>i os. if i < length os then os[i := Worker_terminate (os ! i)] else os) ixs objs"

definition Task_abort :: "Task \<Rightarrow> Task" where
  "Task_abort t =
     (if \<not> Task_isActive t then t
      else t\<lparr>t_signal_aborted := True,
             t_worker_objs := terminate_workers (map_values (t_workers t)) (t_worker_objs t),
             t_handlers := map (\<lambda>(k, h). (k, Handler_cancel h)) (t_handlers t),
             t_streams := map (\<lambda>(k, s). (k, Stream_abort s)) (t_streams t),
             t_status := aborted, t_outcome := Some O_aborted\<rparr>)"

text \<open>
  \<open>_spawnWorker\<close>: a new Worker with the drawn id is stored under its id and started;
  the rejection of \<open>worker.start(fn)\<close> is caught by the empty \<open>.catch\<close> handler and goes
  nowhere. The result is the index of the new object, which the returned handle keeps.
\<close>

definition Task_spawnWorker :: "WorkerID \<Rightarrow> Task \<Rightarrow> js_error + (Task \<times> nat)" where
  "Task_spawnWorker wid t =
     (if \<not> Task_isActive t then Inl (FreshError ''Cannot spawn worker: task is not active'')
      else let ix = length (t_worker_objs t);
               w = new_Worker wid (t_ref t);
               w1 = (case Worker_start_begin w of Inl e \<Rightarrow> w | Inr w' \<Rightarrow> w')
           in Inr (t\<lparr>t_worker_objs := t_worker_objs t @ [w1],
                     t_workers := map_set wid ix (t_workers t)\<rparr>, ix))"

text \<open>
  The continuation of \<open>worker.start(fn)\<close> for the worker object \<open>ix\<close>, when its function
  settles: only the worker changes; \<open>_spawnWorker\<close> has discarded the promise.
\<close>

definition Task_workerSettled :: "nat \<Rightarrow> unit fn_outcome \<Rightarrow> Task \<Rightarrow> Task" where
  "Task_workerSettled ix oc t =
     (if ix < length (t_worker_objs t) \<and> w_awaiting (t_worker_objs t ! ix)
      then t\<lparr>t_worker_objs :=
                (t_worker_objs t)[ix := fst (Worker_start_settle oc (t_worker_objs t ! ix))]\<rparr>
      else t)"

text \<open>The \<open>terminate\<close> of the handle \<open>spawnWorker\<close> returned for object \<open>ix\<close>.\<close>

definition Task_terminateWorker :: "nat \<Rightarrow> Task \<Rightarrow> Task" where
  "Task_terminateWorker ix t =
     (if ix < length (t_worker_objs t)
      then t\<lparr>t_worker_objs := (t_worker_objs t)[ix := Worker_terminate (t_worker_objs t ! ix)]\<rparr>
      else t)"

definition Task_addHandler :: "HandlerID \<Rightarrow> Task \<Rightarrow> js_error + Task" where
  "Task_addHandler hid t =
     (if \<not> Task_isActive t then Inl (FreshError ''Cannot add handler: task is not active'')
      else case Handler_setFunction (new_Handler hid (t_ref t)) of
             Inl e \<Rightarrow> Inl e
           | Inr h \<Rightarrow> Inr (t\<lparr>t_handlers := map_set hid h (t_handlers t)\<rparr>))"

definition Task_createStream :: "StreamID \<Rightarrow> Task \<Rightarrow> js_error + Task" where
  "Task_createStream sid t =
     (if \<not> Task_isActive t then Inl (FreshError ''Cannot create stream: task is not active'')
      else Inr (t\<lparr>t_streams := map_set sid (new_Stream sid (t_ref t)) (t_streams t)\<rparr>))"

subsection \<open>Everything that can happen to one Task\<close>

text \<open>
  Calls on the task and on the context it passes to its function, and the settlements
  the event loop delivers. \<open>FnSettled oc\<close>: the promise returned by the function given
  to \<open>run\<close> settled with \<open>oc\<close> (an \<open>async\<close> function that throws rejects its promise).
  \<open>FnThrewAtCall x\<close>: the function threw \<open>x\<close> when it was called, before returning a
  promise. \<open>PoolRejected m\<close>: \<open>WorkerPool.execute\<close> rejected with the message \<open>m\<close>
  without calling the function (the pool was disposed). Each of the three needs a
  \<open>run\<close> that still waits for its function; otherwise nothing happens.

  \<open>t_awaiting\<close> is \<open>Some p\<close> as long as the function can still settle the promise
  \<open>run\<close> awaits. After a throw at the call on the deferred path nothing can: the
  field goes back to \<open>None\<close>, the Task is left as it is, and \<open>run\<close> stays suspended
  for good.
\<close>

text \<open>
  \<open>Run deferred streaming\<close> carries the two options of \<open>run\<close>. \<open>streaming\<close> only
  decides whether the context has an \<open>emit\<close> that pushes into a fresh buffer; no field
  of the Task depends on it.
\<close>

datatype task_event =
    Run bool bool
  | FnSettled "val fn_outcome"
  | FnThrewAtCall thrown
  | PoolRejected string
  | Abort
  | Effect
  | SpawnWorker WorkerID
  | WorkerSettled nat "unit fn_outcome"
  | TerminateWorker nat
  | AddHandler HandlerID
  | CreateStream StreamID

text \<open>
  What the caller of an event sees; \<open>Uncaught x\<close> is an exception that no handler of
  the kernel receives.
\<close>

datatype response =
    Done
  | Suspended
  | Settled run_result
  | Raised js_error
  | Uncaught thrown
  | NotEnabled

fun task_step :: "task_event \<Rightarrow> Task \<Rightarrow> Task \<times> response" where
  "task_step (Run deferred streaming) t =
     (case Task_run_begin deferred t of
        (t', Some e) \<Rightarrow> (t', Settled (Rejected e))
      | (t', None) \<Rightarrow> (t', Suspended))"
| "task_step (FnSettled oc) t =
     (case t_awaiting t of
        None \<Rightarrow> (t, NotEnabled)
      | Some p \<Rightarrow> (let (t', r) = Task_run_settle (awaited p oc) t in (t', Settled r)))"
| "task_step (FnThrewAtCall x) t =
     (case t_awaiting t of
        None \<Rightarrow> (t, NotEnabled)
      | Some p \<Rightarrow>
          (case thrown_at_call p x of
             None \<Rightarrow> (t\<lparr>t_awaiting := None\<rparr>, Uncaught x)
           | Some oc \<Rightarrow> (let (t', r) = Task_run_settle oc t in (t', Settled r))))"
| "task_step (PoolRejected m) t =
     (if t_awaiting t = Some Pooled
      then (let (t', r) = Task_run_settle (Threw (ThrownError (ExternalError m))) t
            in (t', Settled r))
      else (t, NotEnabled))"
| "task_step Abort t = (Task_abort t, Done)"
| "task_step Effect t = (t, case Task_effect t of Some e \<Rightarrow> Raised e | None \<Rightarrow> Done)"
| "task_step (SpawnWorker wid) t =
     (case Task_spawnWorker wid t of Inl e \<Rightarrow> (t, Raised e) | Inr (t', ix) \<Rightarrow> (t', Done))"
| "task_step (WorkerSettled ix oc) t = (Task_workerSettled ix oc t, Done)"
| "task_step (TerminateWorker ix) t = (Task_terminateWorker ix t, Done)"
| "task_step (AddHandler hid) t =
     (case Task_addHandler hid t of Inl e \<Rightarrow> (t, Raised e) | Inr t' \<Rightarrow> (t', Done))"
| "task_step (CreateStream sid) t =
     (case Task_createStream sid t of Inl e \<Rightarrow> (t, Raised e) | Inr t' \<Rightarrow> (t', Done))"

fun task_exec :: "task_event list \<Rightarrow> Task \<Rightarrow> Task" where
  "task_exec [] t = t"
| "task_exec (e # es) t = task_exec es (fst (task_step e t))"

subsection \<open>What holds of every Task state\<close>

text \<open>
  The signal is aborted exactly when the status is aborted, the outcome follows the
  status, an error is stored only with status error and a result only with status
  success, and a suspended run has status running or aborted.
\<close>

definition task_inv :: "Task \<Rightarrow> bool" where
  "task_inv t =
     ((t_signal_aborted t = (t_status t = aborted))
      \<and> (t_outcome t = (case t_status t of pending \<Rightarrow> None | running \<Rightarrow> None
            | success \<Rightarrow> Some O_success | error \<Rightarrow> Some O_error | aborted \<Rightarrow> Some O_aborted))
      \<and> (t_error t \<noteq> None \<longrightarrow> t_status t = error)
      \<and> (t_result t \<noteq> None \<longrightarrow> t_status t = success)
      \<and> (t_awaiting t \<noteq> None \<longrightarrow> t_status t = running \<or> t_status t = aborted))"


section \<open>TaskTable\<close>

text \<open>
  Task objects are shared: the table, the caller of \<open>createTask\<close> and the continuation
  of \<open>Scope.run\<close> hold the same object. The model keeps every Task ever constructed in
  a store, a list indexed by the object's address in order of construction, and the
  table \<open>_tasks : Map<Ref, Task>\<close> maps a ref to an address. A reference in the program
  is never dangling; the guards \<open>a < length h\<close> make the functions total on stores
  where an address would be.
\<close>

type_synonym store = "Task list"
type_synonym TaskTable = "(Ref \<times> nat) list"

definition TaskTable_size :: "TaskTable \<Rightarrow> nat" where
  "TaskTable_size tbl = length tbl"

definition TaskTable_register :: "nat \<Rightarrow> store \<Rightarrow> TaskTable \<Rightarrow> TaskTable" where
  "TaskTable_register a h tbl = map_set (t_ref (h ! a)) a tbl"

definition TaskTable_unregister :: "Ref \<Rightarrow> TaskTable \<Rightarrow> TaskTable" where
  "TaskTable_unregister r tbl = map_delete r tbl"

definition TaskTable_get :: "Ref \<Rightarrow> TaskTable \<Rightarrow> nat option" where
  "TaskTable_get r tbl = map_of tbl r"

definition TaskTable_has :: "Ref \<Rightarrow> TaskTable \<Rightarrow> bool" where
  "TaskTable_has r tbl = (map_of tbl r \<noteq> None)"

text \<open>\<open>abortAll(scopeId)\<close>: the loop over \<open>_tasks.values()\<close>, in insertion order.\<close>

definition abort_at :: "ScopeID \<Rightarrow> nat \<Rightarrow> store \<Rightarrow> store" where
  "abort_at sid a h =
     (if a < length h \<and> t_scopeId (h ! a) = sid then h[a := Task_abort (h ! a)] else h)"

definition TaskTable_abortAll :: "ScopeID \<Rightarrow> TaskTable \<Rightarrow> store \<Rightarrow> store" where
  "TaskTable_abortAll sid tbl h = fold (abort_at sid) (map_values tbl) h"

definition TaskTable_getActiveCount :: "ScopeID \<Rightarrow> TaskTable \<Rightarrow> store \<Rightarrow> nat" where
  "TaskTable_getActiveCount sid tbl h =
     length (filter (\<lambda>a. a < length h \<and> t_scopeId (h ! a) = sid \<and> Task_isActive (h ! a))
               (map_values tbl))"

definition TaskTable_getByScope :: "ScopeID \<Rightarrow> TaskTable \<Rightarrow> store \<Rightarrow> nat list" where
  "TaskTable_getByScope sid tbl h =
     filter (\<lambda>a. a < length h \<and> t_scopeId (h ! a) = sid) (map_values tbl)"

definition TaskTable_clear :: "TaskTable \<Rightarrow> TaskTable" where
  "TaskTable_clear tbl = []"

section \<open>Scope\<close>

text \<open>
  The fields of class \<open>Scope\<close>: \<open>sc_fsm\<close> is the state of its \<open>ScopeFSM\<close>, \<open>sc_tasks\<close>
  its \<open>TaskTable\<close>, \<open>sc_hasPool\<close> is \<open>_workerPool !== null\<close>. \<open>store\<close> holds the Task
  objects the Scope constructed. \<open>sc_runs\<close> is not a field of the class: it lists the
  Tasks for which a call of \<open>Scope.run\<close> is suspended at \<open>await task.run(fn, options)\<close>,
  with its \<open>finally\<close> block still to come.
\<close>

record Scope =
  sc_id :: ScopeID
  sc_name :: string
  sc_fsm :: FSMState
  sc_tasks :: TaskTable
  sc_hasPool :: bool
  sc_workerCount :: "real option"
  store :: store
  sc_runs :: "nat list"

definition new_Scope :: "ScopeID \<Rightarrow> string \<Rightarrow> real option \<Rightarrow> bool \<Rightarrow> Scope" where
  "new_Scope sid name workers pool =
     \<lparr>sc_id = sid, sc_name = name, sc_fsm = INIT, sc_tasks = [], sc_hasPool = pool,
      sc_workerCount = workers, store = [], sc_runs = []\<rparr>"

definition Scope_mount :: "Scope \<Rightarrow> Scope \<times> bool" where
  "Scope_mount s = (let (ch, f) = transition mounted (sc_fsm s) in (s\<lparr>sc_fsm := f\<rparr>, ch))"

definition Scope_suspend :: "Scope \<Rightarrow> Scope \<times> bool" where
  "Scope_suspend s = (let (ch, f) = transition suspend (sc_fsm s) in (s\<lparr>sc_fsm := f\<rparr>, ch))"

definition Scope_resume :: "Scope \<Rightarrow> Scope \<times> bool" where
  "Scope_resume s = (let (ch, f) = transition resume (sc_fsm s) in (s\<lparr>sc_fsm := f\<rparr>, ch))"

definition Scope_abortAll :: "Scope \<Rightarrow> Scope" where
  "Scope_abortAll s = s\<lparr>store := TaskTable_abortAll (sc_id s) (sc_tasks s) (store s)\<rparr>"

text \<open>\<open>dispose()\<close>: the guard, \<open>abortAll\<close>, and the two \<open>transition('dispose')\<close> calls.\<close>

definition Scope_dispose :: "Scope \<Rightarrow> Scope" where
  "Scope_dispose s =
     (if \<not> isAlive (sc_fsm s) then s
      else let s1 = s\<lparr>store := TaskTable_abortAll (sc_id s) (sc_tasks s) (store s)\<rparr>;
               s2 = s1\<lparr>sc_fsm := snd (transition dispose (sc_fsm s1))\<rparr>
           in s2\<lparr>sc_fsm := snd (transition dispose (sc_fsm s2))\<rparr>)"

text \<open>
  \<open>createTask(ref?)\<close>; \<open>gen\<close> is what \<open>generateRef()\<close> would return. The result is the
  address of the new Task.
\<close>

definition Scope_createTask :: "Ref option \<Rightarrow> Ref \<Rightarrow> Scope \<Rightarrow> js_error + (Scope \<times> nat)" where
  "Scope_createTask r gen s =
     (if \<not> isAlive (sc_fsm s)
      then Inl (FreshError (''Cannot create task: scope \"'' @ sc_name s @ ''\" is disposed''))
      else if \<not> canExecute (sc_fsm s)
      then Inl (FreshError (''Cannot create task: scope \"'' @ sc_name s @ ''\" is not ready''))
      else let a = length (store s);
               h = store s @ [new_Task (sc_id s) (sc_hasPool s) r gen];
               s1 = s\<lparr>store := h, sc_tasks := TaskTable_register a h (sc_tasks s)\<rparr>;
               s2 = (if sc_fsm s1 = ATTACHED
                     then s1\<lparr>sc_fsm := snd (transition taskStarted (sc_fsm s1))\<rparr> else s1)
           in Inr (s2, a))"

text \<open>
  \<open>run(fn, options)\<close> up to its \<open>await\<close>: \<open>createTask()\<close> without a ref, then the
  synchronous part of \<open>task.run\<close>. Should \<open>task.run\<close> reject at once, the \<open>finally\<close>
  block unregisters the Task at once.
\<close>

definition Scope_run_begin :: "bool \<Rightarrow> Ref \<Rightarrow> Scope \<Rightarrow> Scope \<times> response" where
  "Scope_run_begin deferred gen s =
     (case Scope_createTask None gen s of
        Inl e \<Rightarrow> (s, Settled (Rejected e))
      | Inr (s1, a) \<Rightarrow>
          (case Task_run_begin deferred (store s1 ! a) of
             (t, Some e) \<Rightarrow>
               (s1\<lparr>store := (store s1)[a := t],
                   sc_tasks := TaskTable_unregister (t_ref t) (sc_tasks s1)\<rparr>,
                Settled (Rejected e))
           | (t, None) \<Rightarrow>
               (s1\<lparr>store := (store s1)[a := t], sc_runs := sc_runs s1 @ [a]\<rparr>, Suspended)))"

definition Scope_effect :: "Scope \<Rightarrow> js_error option" where
  "Scope_effect s =
     (if \<not> isAlive (sc_fsm s)
      then Some (FreshError (''Cannot execute effect: scope \"'' @ sc_name s @ ''\" is disposed''))
      else None)"

definition Scope_getTask :: "Ref \<Rightarrow> Scope \<Rightarrow> nat option" where
  "Scope_getTask r s = TaskTable_get r (sc_tasks s)"

definition Scope_abortTask :: "Ref \<Rightarrow> Scope \<Rightarrow> Scope \<times> bool" where
  "Scope_abortTask r s =
     (case TaskTable_get r (sc_tasks s) of
        Some a \<Rightarrow>
          (s\<lparr>store := (if a < length (store s)
                        then (store s)[a := Task_abort (store s ! a)] else store s),
             sc_tasks := TaskTable_unregister r (sc_tasks s)\<rparr>, True)
      | None \<Rightarrow> (s, False))"

text \<open>
  An event on the Task object at address \<open>a\<close>, through a reference the caller or the
  event loop holds. When the event settles the promise of \<open>task.run\<close> that a call of
  \<open>Scope.run\<close> awaits, the \<open>finally\<close> block of \<open>Scope.run\<close> unregisters the Task's ref.
\<close>

fun settles :: "task_event \<Rightarrow> response \<Rightarrow> bool" where
  "settles (FnSettled oc) (Settled r) = True"
| "settles (FnThrewAtCall x) (Settled r) = True"
| "settles (PoolRejected m) (Settled r) = True"
| "settles e resp = False"

definition Scope_onTask :: "nat \<Rightarrow> task_event \<Rightarrow> Scope \<Rightarrow> Scope \<times> response" where
  "Scope_onTask a e s =
     (if a < length (store s)
      then let (t, resp) = task_step e (store s ! a);
               s1 = s\<lparr>store := (store s)[a := t]\<rparr>
           in if settles e resp \<and> a \<in> set (sc_runs s1)
              then (s1\<lparr>sc_tasks := TaskTable_unregister (t_ref t) (sc_tasks s1),
                       sc_runs := removeAll a (sc_runs s1)\<rparr>, resp)
              else (s1, resp)
      else (s, NotEnabled))"

subsection \<open>Everything that can happen to one Scope\<close>

datatype event =
    Mount
  | Suspend
  | Resume
  | Dispose
  | AbortAll
  | CreateTask "Ref option" Ref
  | ScopeRun bool bool Ref
  | ScopeEffect
  | AbortTask Ref
  | OnTask nat task_event

fun step :: "event \<Rightarrow> Scope \<Rightarrow> Scope" where
  "step Mount s = fst (Scope_mount s)"
| "step Suspend s = fst (Scope_suspend s)"
| "step Resume s = fst (Scope_resume s)"
| "step Dispose s = Scope_dispose s"
| "step AbortAll s = Scope_abortAll s"
| "step (CreateTask r gen) s = (case Scope_createTask r gen s of Inl e \<Rightarrow> s | Inr (s', a) \<Rightarrow> s')"
| "step (ScopeRun deferred streaming gen) s = fst (Scope_run_begin deferred gen s)"
| "step ScopeEffect s = s"
| "step (AbortTask r) s = fst (Scope_abortTask r s)"
| "step (OnTask a e) s = fst (Scope_onTask a e s)"

fun exec :: "event list \<Rightarrow> Scope \<Rightarrow> Scope" where
  "exec [] s = s"
| "exec (e # es) s = exec es (step e s)"

subsection \<open>What holds of every Scope state\<close>

text \<open>
  Every Task in the store satisfies \<open>task_inv\<close>; every table entry points to a Task in
  the store that carries the entry's ref and the Scope's id.
\<close>

definition scope_inv :: "Scope \<Rightarrow> bool" where
  "scope_inv s =
     ((\<forall>t \<in> set (store s). task_inv t)
      \<and> (\<forall>(r, a) \<in> set (sc_tasks s).
            a < length (store s) \<and> t_ref (store s ! a) = r \<and> t_scopeId (store s ! a) = sc_id s))"

section \<open>WorkerPool\<close>

datatype WorkerState = P_idle | P_busy | P_terminated

text \<open>
  A work id \<open>work_n\<close> is kept by its number \<open>n\<close>. The \<open>fn\<close>, \<open>resolve\<close> and \<open>reject\<close> of
  a \<open>PendingWork\<close> are closures of the caller and do not enter the pool's state.
\<close>

record PooledWorker =
  pw_id :: string
  pw_state :: WorkerState
  pw_currentWorkId :: "nat option"

text \<open>
  The fields of class \<open>WorkerPool\<close>. The counts of the config and of \<open>scale\<close> are
  JavaScript numbers, which need not be whole: they are real numbers here (\<open>NaN\<close> and
  the infinities are left out). As for the workers of a Task, the worker objects live in \<open>p_objs\<close> in
  order of creation and \<open>p_workers\<close> is the Map from id to object: the callback that
  \<open>_dispatchWork\<close> leaves behind keeps its worker object.
\<close>

record WorkerPool =
  defaultWorkers :: real
  maxWorkers :: real
  idleTimeout :: real
  p_objs :: "PooledWorker list"
  p_workers :: "(string \<times> nat) list"
  p_queue :: "nat list"
  p_disposed :: bool
  p_workCounter :: nat

definition pool_size :: "WorkerPool \<Rightarrow> nat" where
  "pool_size p = length (p_workers p)"

definition worker_states :: "WorkerPool \<Rightarrow> WorkerState list" where
  "worker_states p = map (\<lambda>i. pw_state (p_objs p ! i)) (map_values (p_workers p))"

definition idleCount :: "WorkerPool \<Rightarrow> nat" where
  "idleCount p = length (filter (\<lambda>st. st = P_idle) (worker_states p))"

definition busyCount :: "WorkerPool \<Rightarrow> nat" where
  "busyCount p = length (filter (\<lambda>st. st = P_busy) (worker_states p))"

definition queueSize :: "WorkerPool \<Rightarrow> nat" where
  "queueSize p = length (p_queue p)"

text \<open>
  \<open>_initializeWorkers(count)\<close>: the loop body for one drawn id, and the loop
  \<open>for (let i = 0; i < count; i++)\<close>, whose \<open>i\<close>-th round draws the id \<open>gen i\<close>. It
  makes a round for every whole \<open>i\<close> from 0 on that is below \<open>count\<close>: none when
  \<open>count\<close> is not positive, else \<open>count\<close> rounded up.
\<close>

definition add_worker :: "string \<Rightarrow> WorkerPool \<Rightarrow> WorkerPool" where
  "add_worker wid p =
     p\<lparr>p_objs := p_objs p @ [\<lparr>pw_id = wid, pw_state = P_idle, pw_currentWorkId = None\<rparr>],
       p_workers := map_set wid (length (p_objs p)) (p_workers p)\<rparr>"

definition initializeWorkers :: "(nat \<Rightarrow> string) \<Rightarrow> real \<Rightarrow> WorkerPool \<Rightarrow> WorkerPool" where
  "initializeWorkers gen count p =
     fold (\<lambda>i. add_worker (gen i)) [0..<nat \<lceil>count\<rceil>] p"

text \<open>The constructor; \<open>timeout\<close> is \<open>config.idleTimeout\<close>, absent or given.\<close>

definition new_WorkerPool :: "real \<Rightarrow> real \<Rightarrow> real option \<Rightarrow> (nat \<Rightarrow> string) \<Rightarrow> WorkerPool" where
  "new_WorkerPool dw mw timeout gen =
     initializeWorkers gen dw
       \<lparr>defaultWorkers = dw, maxWorkers = mw,
        idleTimeout = (case timeout of Some ms \<Rightarrow> ms | None \<Rightarrow> 30000),
        p_objs = [], p_workers = [], p_queue = [], p_disposed = False, p_workCounter = 0\<rparr>"

definition findIdleWorker :: "WorkerPool \<Rightarrow> nat option" where
  "findIdleWorker p =
     List.find (\<lambda>i. i < length (p_objs p) \<and> pw_state (p_objs p ! i) = P_idle)
       (map_values (p_workers p))"

text \<open>The synchronous part of \<open>_dispatchWork\<close>.\<close>

definition dispatchWork :: "nat \<Rightarrow> nat \<Rightarrow> WorkerPool \<Rightarrow> WorkerPool" where
  "dispatchWork i work p =
     p\<lparr>p_objs := (p_objs p)[i := (p_objs p ! i)\<lparr>pw_state := P_busy, pw_currentWorkId := Some work\<rparr>]\<rparr>"

definition processQueue :: "WorkerPool \<Rightarrow> WorkerPool" where
  "processQueue p =
     (case p_queue p of
        [] \<Rightarrow> p
      | work # rest \<Rightarrow>
          (case findIdleWorker p of
             None \<Rightarrow> p
           | Some i \<Rightarrow> dispatchWork i work (p\<lparr>p_queue := rest\<rparr>)))"

text \<open>
  \<open>execute(fn)\<close>: \<open>Some e\<close> when the returned promise is rejected at once, else the work
  is dispatched or queued.
\<close>

definition pool_execute :: "WorkerPool \<Rightarrow> WorkerPool \<times> js_error option" where
  "pool_execute p =
     (if p_disposed p then (p, Some (FreshError ''WorkerPool is disposed''))
      else let work = Suc (p_workCounter p); p1 = p\<lparr>p_workCounter := work\<rparr>
           in case findIdleWorker p1 of
                Some i \<Rightarrow> (dispatchWork i work p1, None)
              | None \<Rightarrow> (p1\<lparr>p_queue := p_queue p1 @ [work]\<rparr>, None))"

text \<open>
  The \<open>finally\<close> callback of \<open>_dispatchWork\<close> for the worker object \<open>i\<close>, run by the
  event loop when the dispatched work has settled.
\<close>

definition pool_workFinished :: "nat \<Rightarrow> WorkerPool \<Rightarrow> WorkerPool" where
  "pool_workFinished i p =
     (if \<not> (i < length (p_objs p) \<and> pw_state (p_objs p ! i) = P_busy) then p
      else if p_disposed p then p
      else processQueue
             (p\<lparr>p_objs := (p_objs p)[i := (p_objs p ! i)\<lparr>pw_state := P_idle,
                                                       pw_currentWorkId := None\<rparr>]\<rparr>))"

text \<open>
  \<open>_shrinkPool(count)\<close>: the first loop collects the ids of at most \<open>count\<close> idle
  workers in Map order, the second marks each terminated and deletes its id.
\<close>

fun collect_idle :: "real \<Rightarrow> (string \<times> nat) list \<Rightarrow> PooledWorker list \<Rightarrow> string list" where
  "collect_idle count [] objs = []"
| "collect_idle count ((wid, i) # ws) objs =
     (if 0 \<ge> count then []
      else if i < length objs \<and> pw_state (objs ! i) = P_idle
           then pw_id (objs ! i) # collect_idle (count - 1) ws objs
           else collect_idle count ws objs)"

definition remove_worker :: "string \<Rightarrow> WorkerPool \<Rightarrow> WorkerPool" where
  "remove_worker wid p =
     (case map_of (p_workers p) wid of
        Some i \<Rightarrow>
          p\<lparr>p_objs := (if i < length (p_objs p)
                        then (p_objs p)[i := (p_objs p ! i)\<lparr>pw_state := P_terminated\<rparr>]
                        else p_objs p),
            p_workers := map_delete wid (p_workers p)\<rparr>
      | None \<Rightarrow> p)"

definition shrinkPool :: "real \<Rightarrow> WorkerPool \<Rightarrow> WorkerPool" where
  "shrinkPool count p = fold remove_worker (collect_idle count (p_workers p) (p_objs p)) p"

definition pool_scale :: "(nat \<Rightarrow> string) \<Rightarrow> real \<Rightarrow> WorkerPool \<Rightarrow> WorkerPool" where
  "pool_scale gen count p =
     (if p_disposed p then p
      else let target = min count (maxWorkers p); current = real (pool_size p)
           in if target > current then initializeWorkers gen (target - current) p
              else if target < current then shrinkPool (current - target) p
              else p)"

definition pool_dispose :: "WorkerPool \<Rightarrow> WorkerPool" where
  "pool_dispose p =
     (if p_disposed p then p
      else p\<lparr>p_disposed := True, p_queue := [],
             p_objs := fold (\<lambda>i os. if i < length os
                                     then os[i := (os ! i)\<lparr>pw_state := P_terminated\<rparr>] else os)
                         (map_values (p_workers p)) (p_objs p),
             p_workers := []\<rparr>)"

subsection \<open>Everything that can happen to one WorkerPool\<close>

datatype pool_event =
    Execute
  | Scale "nat \<Rightarrow> string" real
  | DisposePool
  | WorkFinished nat

fun pool_step :: "pool_event \<Rightarrow> WorkerPool \<Rightarrow> WorkerPool" where
  "pool_step Execute p = fst (pool_execute p)"
| "pool_step (Scale gen count) p = pool_scale gen count p"
| "pool_step DisposePool p = pool_dispose p"
| "pool_step (WorkFinished i) p = pool_workFinished i p"

fun pool_exec :: "pool_event list \<Rightarrow> WorkerPool \<Rightarrow> WorkerPool" where
  "pool_exec [] p = p"
| "pool_exec (e # es) p = pool_exec es (pool_step e p)"

text \<open>Five ids that differ, as five draws of \<open>Date.now()\<close> and \<open>Math.random()\<close> do.\<close>

definition five_ids :: "nat \<Rightarrow> string" where
  "five_ids i = replicate (Suc i) (CHR ''w'')"

section \<open>Authority: subscribe and broadcast\<close>

text \<open>
  A JavaScript \<open>Set\<close> keeps its elements in insertion order. In the language's own
  definition it is a list of entries: \<open>add\<close> appends an element that is not present,
  \<open>delete\<close> empties the element's entry, and an iterator walks the list by index,
  skipping empty entries, until the index reaches the current length; so it visits an
  element appended during the walk and misses one deleted before its turn.
\<close>

type_synonym 'a js_set = "'a option list"

definition set_add :: "'a \<Rightarrow> 'a js_set \<Rightarrow> 'a js_set" where
  "set_add x es = (if Some x \<in> set es then es else es @ [Some x])"

definition set_delete :: "'a \<Rightarrow> 'a js_set \<Rightarrow> 'a js_set" where
  "set_delete x es = map (\<lambda>e. if e = Some x then None else e) es"

definition set_elems :: "'a js_set \<Rightarrow> 'a list" where
  "set_elems es = concat (map (\<lambda>e. case e of None \<Rightarrow> [] | Some x \<Rightarrow> [x]) es)"

text \<open>
  A listener is a function, kept by a number. Of class \<open>Authority\<close> only the table
  \<open>_listeners : Map<string, Set<listener>>\<close> is read or written by \<open>subscribe\<close>, the
  unsubscribers it returns, and \<open>broadcast\<close>.
\<close>

type_synonym listener = nat

record Authority =
  a_listeners :: "(string \<times> listener js_set) list"

definition new_Authority :: Authority where
  "new_Authority = \<lparr>a_listeners = []\<rparr>"

definition Authority_subscribe :: "string \<Rightarrow> listener \<Rightarrow> Authority \<Rightarrow> Authority" where
  "Authority_subscribe channel l A =
     (let m = (if map_of (a_listeners A) channel = None
               then map_set channel [] (a_listeners A) else a_listeners A)
      in case map_of m channel of
           Some es \<Rightarrow> A\<lparr>a_listeners := map_set channel (set_add l es) m\<rparr>
         | None \<Rightarrow> A\<lparr>a_listeners := m\<rparr>)"

text \<open>The function \<open>subscribe(channel, listener)\<close> returns.\<close>

definition Authority_unsubscribe :: "string \<Rightarrow> listener \<Rightarrow> Authority \<Rightarrow> Authority" where
  "Authority_unsubscribe channel l A =
     (case map_of (a_listeners A) channel of
        Some es \<Rightarrow> A\<lparr>a_listeners := map_set channel (set_delete l es) (a_listeners A)\<rparr>
      | None \<Rightarrow> A)"

text \<open>
  What a listener does when it is called is its own code. The model lets it subscribe
  and unsubscribe listeners on any channel, and then return or throw; what it does may
  depend on the calls \<open>broadcast\<close> has made before it. A listener that calls
  \<open>broadcast\<close> or \<open>dispose\<close> itself is outside the model.
\<close>

datatype listener_action = Subscribe string listener | Unsubscribe string listener

record behaviour =
  acts :: "listener_action list"
  throws :: "thrown option"

fun do_action :: "listener_action \<Rightarrow> Authority \<Rightarrow> Authority" where
  "do_action (Subscribe ch l) A = Authority_subscribe ch l A"
| "do_action (Unsubscribe ch l) A = Authority_unsubscribe ch l A"

type_synonym call_log = "(listener \<times> val) list"

text \<open>
  The loop \<open>for (const listener of listeners) listener(data)\<close> from index \<open>i\<close> on. The
  Set object \<open>listeners\<close> is the one stored under \<open>channel\<close>, which the actions above
  never replace. The result is the Authority, the calls made, and the exception that
  left the loop, if any. The loop need not end (a listener may unsubscribe and
  subscribe itself each time it is called): \<open>fuel\<close> bounds the entries read, and \<open>None\<close>
  says the fuel ran out.
\<close>

fun deliver ::
  "nat \<Rightarrow> (call_log \<Rightarrow> listener \<Rightarrow> behaviour) \<Rightarrow> string \<Rightarrow> val \<Rightarrow> nat \<Rightarrow> Authority \<Rightarrow> call_log
     \<Rightarrow> (Authority \<times> call_log \<times> thrown option) option" where
  "deliver 0 beh channel data i A calls = None"
| "deliver (Suc fuel) beh channel data i A calls =
     (case map_of (a_listeners A) channel of
        None \<Rightarrow> Some (A, calls, None)
      | Some es \<Rightarrow>
          if i \<ge> length es then Some (A, calls, None)
          else (case es ! i of
                  None \<Rightarrow> deliver fuel beh channel data (Suc i) A calls
                | Some l \<Rightarrow>
                    (let A' = fold do_action (acts (beh calls l)) A;
                         calls' = calls @ [(l, data)]
                     in case throws (beh calls l) of
                          Some x \<Rightarrow> Some (A', calls', Some x)
                        | None \<Rightarrow> deliver fuel beh channel data (Suc i) A' calls')))"

definition Authority_broadcast ::
  "nat \<Rightarrow> (call_log \<Rightarrow> listener \<Rightarrow> behaviour) \<Rightarrow> string \<Rightarrow> val \<Rightarrow> Authority
     \<Rightarrow> (Authority \<times> call_log \<times> thrown option) option" where
  "Authority_broadcast fuel beh channel data A =
     (case map_of (a_listeners A) channel of
        None \<Rightarrow> Some (A, [], None)
      | Some es \<Rightarrow> deliver fuel beh channel data 0 A [])"

text \<open>
  How the entries of a Set can change while it is walked: entries are appended, and an
  entry is emptied, never refilled.
\<close>

definition grows :: "'a js_set \<Rightarrow> 'a js_set \<Rightarrow> bool" where
  "grows es es' = (length es \<le> length es' \<and> (\<forall>j < length es. es' ! j = es ! j \<or> es' ! j = None))"

text \<open>Listeners for the examples: one that only returns, and a table of behaviours.\<close>

definition quiet :: behaviour where
  "quiet = \<lparr>acts = [], throws = None\<rparr>"

definition thrower :: "call_log \<Rightarrow> listener \<Rightarrow> behaviour" where
  "thrower calls l =
     (if l = 1 then \<lparr>acts = [], throws = Some (ThrownError (ExternalError ''boom''))\<rparr> else quiet)"

definition adder :: "call_log \<Rightarrow> listener \<Rightarrow> behaviour" where
  "adder calls l = (if l = 1 then \<lparr>acts = [Subscribe ''event'' 2], throws = None\<rparr> else quiet)"

definition remover :: "call_log \<Rightarrow> listener \<Rightarrow> behaviour" where
  "remover calls l =
     (if l = 3 then \<lparr>acts = [Unsubscribe ''event'' 4], throws = None\<rparr>
      else if l = 1 then \<lparr>acts = [], throws = Some (ThrownError (ExternalError ''boom''))\<rparr>
      else quiet)"

section \<open>Properties of Task\<close>

lemma task_inv_new: "task_inv (new_Task sid pool r gen)"
  by (simp add: task_inv_def new_Task_def)

lemma task_inv_run_begin: "task_inv t \<Longrightarrow> task_inv (fst (Task_run_begin d t))"
  by (auto simp: task_inv_def Task_run_begin_def Task_run_catch_def Let_def
      split: TaskStatus.splits)

lemma task_inv_run_settle:
  "task_inv t \<Longrightarrow> t_awaiting t \<noteq> None \<Longrightarrow> task_inv (fst (Task_run_settle oc t))"
  by (cases oc) (auto simp: task_inv_def Task_run_catch_def Let_def split: TaskStatus.splits)

lemma task_inv_abort: "task_inv t \<Longrightarrow> task_inv (Task_abort t)"
  by (auto simp: task_inv_def Task_abort_def Task_isActive_def split: TaskStatus.splits)

lemma task_inv_workers:
  "task_inv t \<Longrightarrow> task_inv (t\<lparr>t_worker_objs := ws\<rparr>)"
  "task_inv t \<Longrightarrow> task_inv (t\<lparr>t_worker_objs := ws, t_workers := m\<rparr>)"
  "task_inv t \<Longrightarrow> task_inv (t\<lparr>t_handlers := hs\<rparr>)"
  "task_inv t \<Longrightarrow> task_inv (t\<lparr>t_streams := ss\<rparr>)"
  "task_inv t \<Longrightarrow> task_inv (t\<lparr>t_awaiting := None\<rparr>)"
  by (simp_all add: task_inv_def)

lemma fst_task_step:
  "fst (task_step (Run d s) t) = fst (Task_run_begin d t)"
  "fst (task_step (FnSettled oc) t) =
     (case t_awaiting t of None \<Rightarrow> t | Some p \<Rightarrow> fst (Task_run_settle (awaited p oc) t))"
  "fst (task_step (FnThrewAtCall x) t) =
     (case t_awaiting t of
        None \<Rightarrow> t
      | Some p \<Rightarrow> (case thrown_at_call p x of
                    None \<Rightarrow> t\<lparr>t_awaiting := None\<rparr>
                  | Some oc' \<Rightarrow> fst (Task_run_settle oc' t)))"
  "fst (task_step (PoolRejected m) t) =
     (if t_awaiting t = Some Pooled
      then fst (Task_run_settle (Threw (ThrownError (ExternalError m))) t) else t)"
  "fst (task_step Abort t) = Task_abort t"
  "fst (task_step Effect t) = t"
  "fst (task_step (SpawnWorker wid) t) =
     (case Task_spawnWorker wid t of Inl e \<Rightarrow> t | Inr (t', ix) \<Rightarrow> t')"
  "fst (task_step (WorkerSettled ix uoc) t) = Task_workerSettled ix uoc t"
  "fst (task_step (TerminateWorker ix) t) = Task_terminateWorker ix t"
  "fst (task_step (AddHandler hid) t) =
     (case Task_addHandler hid t of Inl e \<Rightarrow> t | Inr t' \<Rightarrow> t')"
  "fst (task_step (CreateStream sid) t) =
     (case Task_createStream sid t of Inl e \<Rightarrow> t | Inr t' \<Rightarrow> t')"
  by (simp_all split: option.splits prod.splits sum.splits)

lemma task_inv_step: "task_inv t \<Longrightarrow> task_inv (fst (task_step e t))"
  by (cases e)
     (auto simp: fst_task_step task_inv_run_begin task_inv_run_settle task_inv_abort
        Task_spawnWorker_def Task_workerSettled_def Task_terminateWorker_def
        Task_addHandler_def Task_createStream_def Let_def task_inv_workers
      simp del: task_step.simps Task_run_settle.simps
      split: option.splits sum.splits)

lemma task_inv_exec: "task_inv t \<Longrightarrow> task_inv (task_exec es t)"
  by (induction es arbitrary: t) (simp_all add: task_inv_step)

lemma task_inv_reachable: "task_inv (task_exec es (new_Task sid pool r gen))"
  by (simp add: task_inv_exec task_inv_new)


lemma terminal_step:
  assumes "task_inv t" and "\<not> Task_isActive t"
  shows "t_status (fst (task_step e t)) = t_status t \<and> t_outcome (fst (task_step e t)) = t_outcome t
       \<and> t_error (fst (task_step e t)) = t_error t \<and> t_result (fst (task_step e t)) = t_result t
       \<and> t_signal_aborted (fst (task_step e t)) = t_signal_aborted t"
proof (cases e)
  case (FnSettled oc)
  show ?thesis
  proof (cases "t_awaiting t")
    case None
    then show ?thesis using FnSettled by simp
  next
    case (Some p)
    then have "t_status t = aborted" "t_signal_aborted t" "t_outcome t = Some O_aborted"
      using assms by (auto simp: task_inv_def Task_isActive_def)
    then show ?thesis using FnSettled Some
      by (cases "awaited p oc") (simp_all add: Task_run_catch_def)
  qed
next
  case (FnThrewAtCall x)
  show ?thesis
  proof (cases "t_awaiting t")
    case None
    then show ?thesis using FnThrewAtCall by simp
  next
    case (Some p)
    then have "t_status t = aborted" "t_signal_aborted t" "t_outcome t = Some O_aborted"
      using assms by (auto simp: task_inv_def Task_isActive_def)
    then show ?thesis using FnThrewAtCall Some
      by (cases p) (simp_all add: Task_run_catch_def)
  qed
next
  case (PoolRejected m)
  show ?thesis
  proof (cases "t_awaiting t = Some Pooled")
    case False
    then show ?thesis using PoolRejected by simp
  next
    case True
    then have "t_status t = aborted" "t_signal_aborted t" "t_outcome t = Some O_aborted"
      using assms by (auto simp: task_inv_def Task_isActive_def)
    then show ?thesis using PoolRejected True
      by (simp add: Task_run_catch_def)
  qed
qed (use assms in \<open>auto simp: Task_run_begin_def Task_abort_def Task_spawnWorker_def
       Task_workerSettled_def Task_terminateWorker_def Task_addHandler_def Task_createStream_def
       Task_isActive_def\<close>)

lemma terminal_exec:
  "task_inv t \<Longrightarrow> \<not> Task_isActive t \<Longrightarrow>
     t_status (task_exec es t) = t_status t \<and> t_outcome (task_exec es t) = t_outcome t
     \<and> t_error (task_exec es t) = t_error t \<and> t_result (task_exec es t) = t_result t
     \<and> t_signal_aborted (task_exec es t) = t_signal_aborted t"
proof (induction es arbitrary: t)
  case Nil
  then show ?case by simp
next
  case (Cons e es)
  let ?u = "fst (task_step e t)"
  have u: "task_inv ?u" using Cons.prems(1) by (rule task_inv_step)
  have same: "t_status ?u = t_status t \<and> t_outcome ?u = t_outcome t
       \<and> t_error ?u = t_error t \<and> t_result ?u = t_result t
       \<and> t_signal_aborted ?u = t_signal_aborted t"
    using terminal_step[OF Cons.prems] .
  then have "\<not> Task_isActive ?u" using Cons.prems(2) by (simp add: Task_isActive_def)
  from Cons.IH[OF u this] same show ?case by simp
qed

lemma settle_cases:
  assumes "task_inv t" and "t_awaiting t = Some p"
  shows "Task_run_settle (awaited p oc) t =
     (if t_signal_aborted t
      then (t\<lparr>t_status := aborted, t_outcome := Some O_aborted, t_awaiting := None\<rparr>,
            Rejected (FreshError ''Task was aborted''))
      else case oc of
        Returned v \<Rightarrow> (t\<lparr>t_result := Some v, t_status := success, t_outcome := Some O_success,
                         t_awaiting := None\<rparr>, Resolved v)
      | Threw x \<Rightarrow> (t\<lparr>t_status := error, t_outcome := Some O_error,
                       t_error := Some (toError x), t_awaiting := None\<rparr>, Rejected (toError x)))"
proof -
  have e: "t_signal_aborted t \<Longrightarrow> t_error t = None"
    using assms by (auto simp: task_inv_def)
  show ?thesis
    by (cases oc; cases p) (auto simp: Task_run_catch_def e)
qed

lemma thrown_cases:
  assumes "task_inv t" and "t_awaiting t = Some p" and "thrown_at_call p x = Some oc"
  shows "Task_run_settle oc t =
     (if t_signal_aborted t
      then (t\<lparr>t_status := aborted, t_outcome := Some O_aborted, t_awaiting := None\<rparr>,
            Rejected (FreshError ''Task was aborted''))
      else (t\<lparr>t_status := error, t_outcome := Some O_error,
              t_error := Some (toError x), t_awaiting := None\<rparr>, Rejected (toError x)))"
proof -
  have e: "t_signal_aborted t \<Longrightarrow> t_error t = None"
    using assms by (auto simp: task_inv_def)
  show ?thesis using assms(3)
    by (cases p) (auto simp: Task_run_catch_def e)
qed

text \<open>
  What \<open>run\<close> does classify. Take any Task state reachable from a new Task in which
  \<open>run\<close> waits for its function, and let the promise the function returned settle
  with \<open>oc\<close>. If it rejected and the signal is aborted, the task finalizes as aborted
  and stores no error. If it rejected and the signal is not aborted, the task
  finalizes as error and \<open>run\<close> rejects with the stored error: the thrown \<open>Error\<close>
  object itself, or a new \<open>Error\<close> whose message is the string of any other thrown
  value. If it resolved with \<open>v\<close> and the signal is not aborted, the task finalizes as
  success, stores \<open>v\<close> and \<open>run\<close> resolves with \<open>v\<close>. Whatever happens to the task
  afterwards (the events \<open>es'\<close>), status, outcome, error and result stay.
\<close>

lemma settlement_classification:
  assumes "t = task_exec es (new_Task sid pool r gen)" and "t_awaiting t = Some p"
      and "task_step (FnSettled oc) t = (t', resp)"
  shows "(t_signal_aborted t \<longrightarrow> oc = Threw x \<longrightarrow>
            t_status t' = aborted \<and> t_outcome t' = Some O_aborted \<and> t_error t' = None)
       \<and> (\<not> t_signal_aborted t \<longrightarrow> oc = Threw (ThrownError e) \<longrightarrow>
            t_status t' = error \<and> t_outcome t' = Some O_error \<and> t_error t' = Some e
            \<and> resp = Settled (Rejected e))
       \<and> (\<not> t_signal_aborted t \<longrightarrow> oc = Threw (ThrownValue s) \<longrightarrow>
            t_status t' = error \<and> t_outcome t' = Some O_error
            \<and> t_error t' = Some (FreshError s) \<and> resp = Settled (Rejected (FreshError s)))
       \<and> (\<not> t_signal_aborted t \<longrightarrow> oc = Returned v \<longrightarrow>
            t_status t' = success \<and> t_outcome t' = Some O_success \<and> t_result t' = Some v
            \<and> t_error t' = None \<and> resp = Settled (Resolved v))
       \<and> t_status (task_exec es' t') = t_status t'
       \<and> t_outcome (task_exec es' t') = t_outcome t'
       \<and> t_error (task_exec es' t') = t_error t'
       \<and> t_result (task_exec es' t') = t_result t'"
proof -
  have inv: "task_inv t" using assms(1) by (simp add: task_inv_reachable)
  have e: "t_signal_aborted t \<Longrightarrow> t_error t = None"
    using inv by (auto simp: task_inv_def)
  have ne: "\<not> t_signal_aborted t \<Longrightarrow> t_error t = None"
    using inv assms(2) by (auto simp: task_inv_def)
  have st: "(t', resp) = (let (u, r) = Task_run_settle (awaited p oc) t in (u, Settled r))"
    using assms(2,3) by simp
  note sc = settle_cases[OF inv assms(2), of oc]
  have inv': "task_inv t'"
    using task_inv_step[OF inv, of "FnSettled oc"] assms(3) by simp
  have fin: "\<not> Task_isActive t'"
    using st sc by (auto simp: Task_isActive_def split: fn_outcome.splits if_splits)
  have c1: "t_signal_aborted t \<longrightarrow> oc = Threw x \<longrightarrow>
            t_status t' = aborted \<and> t_outcome t' = Some O_aborted \<and> t_error t' = None"
    using st sc e by auto
  have c2: "\<not> t_signal_aborted t \<longrightarrow> oc = Threw (ThrownError e) \<longrightarrow>
            t_status t' = error \<and> t_outcome t' = Some O_error \<and> t_error t' = Some e
            \<and> resp = Settled (Rejected e)"
    using st sc by auto
  have c2': "\<not> t_signal_aborted t \<longrightarrow> oc = Threw (ThrownValue s) \<longrightarrow>
            t_status t' = error \<and> t_outcome t' = Some O_error
            \<and> t_error t' = Some (FreshError s) \<and> resp = Settled (Rejected (FreshError s))"
    using st sc by auto
  have c3: "\<not> t_signal_aborted t \<longrightarrow> oc = Returned v \<longrightarrow>
            t_status t' = success \<and> t_outcome t' = Some O_success \<and> t_result t' = Some v
            \<and> t_error t' = None \<and> resp = Settled (Resolved v)"
    using st sc ne by auto
  from c1 c2 c2' c3 terminal_exec[OF inv' fin, of es'] show ?thesis by simp
qed

text \<open>
  The same for a function that throws at its call, on the direct path and in the
  pool.
\<close>

lemma thrown_at_call_classification:
  assumes "t = task_exec es (new_Task sid pool r gen)" and "t_awaiting t = Some p"
      and "p \<noteq> Deferred" and "task_step (FnThrewAtCall x) t = (t', resp)"
  shows "(t_signal_aborted t \<longrightarrow>
            t_status t' = aborted \<and> t_outcome t' = Some O_aborted \<and> t_error t' = None)
       \<and> (\<not> t_signal_aborted t \<longrightarrow> x = ThrownError e \<longrightarrow>
            t_status t' = error \<and> t_outcome t' = Some O_error \<and> t_error t' = Some e
            \<and> resp = Settled (Rejected e))
       \<and> (\<not> t_signal_aborted t \<longrightarrow> x = ThrownValue s \<longrightarrow>
            t_status t' = error \<and> t_outcome t' = Some O_error
            \<and> t_error t' = Some (FreshError s) \<and> resp = Settled (Rejected (FreshError s)))
       \<and> t_status (task_exec es' t') = t_status t'
       \<and> t_outcome (task_exec es' t') = t_outcome t'
       \<and> t_error (task_exec es' t') = t_error t'
       \<and> t_result (task_exec es' t') = t_result t'"
proof -
  have inv: "task_inv t" using assms(1) by (simp add: task_inv_reachable)
  have e: "t_signal_aborted t \<Longrightarrow> t_error t = None"
    using inv by (auto simp: task_inv_def)
  obtain oc where oc: "thrown_at_call p x = Some oc" using assms(3) by (cases p) auto
  have st: "(t', resp) = (let (u, r) = Task_run_settle oc t in (u, Settled r))"
    using assms(2,4) oc by simp
  note sc = thrown_cases[OF inv assms(2) oc]
  have inv': "task_inv t'"
    using task_inv_step[OF inv, of "FnThrewAtCall x"] assms(4) by simp
  have fin: "\<not> Task_isActive t'"
    using st sc by (auto simp: Task_isActive_def split: if_splits)
  have c1: "t_signal_aborted t \<longrightarrow>
            t_status t' = aborted \<and> t_outcome t' = Some O_aborted \<and> t_error t' = None"
    using st sc e by auto
  have c2: "\<not> t_signal_aborted t \<longrightarrow> x = ThrownError e \<longrightarrow>
            t_status t' = error \<and> t_outcome t' = Some O_error \<and> t_error t' = Some e
            \<and> resp = Settled (Rejected e)"
    using st sc by auto
  have c2': "\<not> t_signal_aborted t \<longrightarrow> x = ThrownValue s \<longrightarrow>
            t_status t' = error \<and> t_outcome t' = Some O_error
            \<and> t_error t' = Some (FreshError s) \<and> resp = Settled (Rejected (FreshError s))"
    using st sc by auto
  from c1 c2 c2' terminal_exec[OF inv' fin, of es'] show ?thesis by simp
qed

text \<open>
  A \<open>run\<close> that no longer waits for its function while the Task is still running or
  aborted stays so: no event gives the Task another status than running or aborted.
\<close>

lemma stranded_step:
  assumes "t_awaiting t = None" and "t_status t = running \<or> t_status t = aborted"
  shows "t_awaiting (fst (task_step e t)) = None
       \<and> (t_status (fst (task_step e t)) = running \<or> t_status (fst (task_step e t)) = aborted)"
  using assms
  by (cases e)
     (auto simp: Task_run_begin_def Task_abort_def Task_isActive_def Task_spawnWorker_def
        Task_workerSettled_def Task_terminateWorker_def Task_addHandler_def
        Task_createStream_def Handler_setFunction_def new_Handler_def Let_def
      split: sum.splits)

lemma stranded_exec:
  "t_awaiting t = None \<Longrightarrow> t_status t = running \<or> t_status t = aborted \<Longrightarrow>
     t_status (task_exec es t) = running \<or> t_status (task_exec es t) = aborted"
proof (induction es arbitrary: t)
  case Nil
  then show ?case by simp
next
  case (Cons e es)
  from stranded_step[OF Cons.prems, of e] Cons.IH[of "fst (task_step e t)"]
  show ?case by simp
qed

text \<open>The definitions a concrete Task run unfolds to.\<close>

lemmas task_defs =
  new_Task_def Task_isActive_def Task_run_begin_def Task_run_catch_def Task_abort_def
  Task_spawnWorker_def Task_workerSettled_def Task_terminateWorker_def Task_addHandler_def
  Task_createStream_def Task_effect_def new_Worker_def Worker_start_begin_def Worker_terminate_def
  Worker_isActive_def terminate_workers_def map_values_def Handler_setFunction_def new_Handler_def
  Handler_cancel_def new_Stream_def Stream_abort_def Let_def

text \<open>
  C5. \<open>run(fn, { deferred: true })\<close> on a new Task, where \<open>fn\<close> throws \<open>Error('boom')\<close>
  at its call and the signal is never aborted. The exception is caught by nobody: the
  Task keeps status running with no outcome and no error, \<open>run\<close> no longer waits for
  anything that could settle it, and whatever events \<open>es\<close> follow, the status never
  becomes error. The same function on the direct path finalizes the Task as error
  with the error stored, and \<open>run\<close> rejects with it.
\<close>

theorem deferred_throw_never_finalizes:
  "t_awaiting (task_exec [Run True False] (new_Task ''s'' False None ''ref_1'')) = Some Deferred
   \<and> task_step (FnThrewAtCall (ThrownError (ExternalError ''boom'')))
        (task_exec [Run True False] (new_Task ''s'' False None ''ref_1''))
       = ((new_Task ''s'' False None ''ref_1'')\<lparr>t_status := running\<rparr>,
          Uncaught (ThrownError (ExternalError ''boom'')))
   \<and> t_outcome (task_exec [Run True False, FnThrewAtCall (ThrownError (ExternalError ''boom''))]
        (new_Task ''s'' False None ''ref_1'')) = None
   \<and> t_error (task_exec [Run True False, FnThrewAtCall (ThrownError (ExternalError ''boom''))]
        (new_Task ''s'' False None ''ref_1'')) = None
   \<and> \<not> t_signal_aborted (task_exec [Run True False,
        FnThrewAtCall (ThrownError (ExternalError ''boom''))] (new_Task ''s'' False None ''ref_1''))
   \<and> t_status (task_exec es (task_exec [Run True False,
        FnThrewAtCall (ThrownError (ExternalError ''boom''))] (new_Task ''s'' False None ''ref_1'')))
       \<noteq> error
   \<and> task_step (FnThrewAtCall (ThrownError (ExternalError ''boom'')))
        (task_exec [Run False False] (new_Task ''s'' False None ''ref_1''))
       = ((new_Task ''s'' False None ''ref_1'')
            \<lparr>t_status := error, t_outcome := Some O_error,
             t_error := Some (ExternalError ''boom'')\<rparr>,
          Settled (Rejected (ExternalError ''boom'')))"
proof -
  let ?h = "task_exec [Run True False, FnThrewAtCall (ThrownError (ExternalError ''boom''))]
        (new_Task ''s'' False None ''ref_1'')"
  have a: "t_awaiting ?h = None" and st: "t_status ?h = running"
    by (simp_all add: task_defs)
  have "t_status (task_exec es ?h) = running \<or> t_status (task_exec es ?h) = aborted"
    using stranded_exec[OF a, of es] st by simp
  then have never: "t_status (task_exec es ?h) \<noteq> error" by auto
  have rest: "t_awaiting (task_exec [Run True False] (new_Task ''s'' False None ''ref_1'')) = Some Deferred
   \<and> task_step (FnThrewAtCall (ThrownError (ExternalError ''boom'')))
        (task_exec [Run True False] (new_Task ''s'' False None ''ref_1''))
       = ((new_Task ''s'' False None ''ref_1'')\<lparr>t_status := running\<rparr>,
          Uncaught (ThrownError (ExternalError ''boom'')))
   \<and> t_outcome ?h = None \<and> t_error ?h = None \<and> \<not> t_signal_aborted ?h
   \<and> task_step (FnThrewAtCall (ThrownError (ExternalError ''boom'')))
        (task_exec [Run False False] (new_Task ''s'' False None ''ref_1''))
       = ((new_Task ''s'' False None ''ref_1'')
            \<lparr>t_status := error, t_outcome := Some O_error,
             t_error := Some (ExternalError ''boom'')\<rparr>,
          Settled (Rejected (ExternalError ''boom'')))"
    by (simp add: task_defs)
  from rest never show ?thesis by blast
qed

text \<open>
  C6, as stated, fails: \<open>abort()\<close> on a Task that was never run takes the status from
  pending to aborted, and running is never visited.
\<close>

theorem task_status_counterexample:
  "t_status (new_Task ''s'' False None ''ref_1'') = pending
   \<and> t_status (fst (task_step Abort (new_Task ''s'' False None ''ref_1''))) = aborted
   \<and> (pending, aborted) \<notin> {(pending, running), (running, success), (running, error), (running, aborted)}"
  by (simp add: task_defs)

text \<open>
  C6, amended. For every Task state \<open>t\<close> reachable from a new Task and every event
  \<open>e\<close>: the status stays, or moves along pending to running, running to success, error
  or aborted, or pending to aborted (an \<open>abort()\<close> before \<open>run\<close>). Once the status is
  terminal, no sequence of further events \<open>es'\<close> changes it. A \<open>run\<close> on a Task whose
  status is not pending rejects with the status in its message, leaves the Task as it
  is and does not suspend on the function, which is not called.
\<close>

theorem task_status_transitions:
  assumes "t = task_exec es (new_Task sid pool r gen)"
  shows "(t_status (fst (task_step e t)) = t_status t
          \<or> (t_status t, t_status (fst (task_step e t)))
              \<in> {(pending, running), (running, success), (running, error), (running, aborted),
                  (pending, aborted)})
       \<and> (\<not> Task_isActive t \<longrightarrow> t_status (task_exec es' t) = t_status t)
       \<and> (t_status t \<noteq> pending \<longrightarrow>
            task_step (Run deferred streaming) t =
              (t, Settled (Rejected
                 (FreshError (''Cannot run task: status is '' @ TaskStatus_str (t_status t))))))"
proof -
  have inv: "task_inv t" using assms by (simp add: task_inv_reachable)
  have edge: "t_status (fst (task_step e t)) = t_status t
          \<or> (t_status t, t_status (fst (task_step e t)))
              \<in> {(pending, running), (running, success), (running, error), (running, aborted),
                  (pending, aborted)}"
  proof (cases "Task_isActive t")
    case False
    then show ?thesis using terminal_step[OF inv False, of e] by simp
  next
    case True
    have aw: "t_awaiting t \<noteq> None \<Longrightarrow> t_status t = running"
      using inv True by (auto simp: task_inv_def Task_isActive_def)
    show ?thesis
    proof (cases e)
      case (FnSettled oc)
      show ?thesis
      proof (cases "t_awaiting t")
        case None
        then show ?thesis using FnSettled by simp
      next
        case (Some p)
        then show ?thesis using FnSettled aw settle_cases[OF inv Some, of oc]
          by (auto split: fn_outcome.splits)
      qed
    next
      case (FnThrewAtCall x)
      show ?thesis
      proof (cases "t_awaiting t")
        case None
        then show ?thesis using FnThrewAtCall by simp
      next
        case (Some p)
        show ?thesis
        proof (cases "thrown_at_call p x")
          case None
          then show ?thesis using FnThrewAtCall Some by simp
        next
          case oc: (Some oc')
          then show ?thesis using FnThrewAtCall Some aw thrown_cases[OF inv Some oc]
            by auto
        qed
      qed
    next
      case (PoolRejected m)
      show ?thesis
      proof (cases "t_awaiting t = Some Pooled")
        case False
        then show ?thesis using PoolRejected by simp
      next
        case yes: True
        then show ?thesis using PoolRejected aw
          by (auto simp: Task_run_catch_def)
      qed
    qed (use True in \<open>auto simp: Task_run_begin_def Task_run_catch_def Task_abort_def
           Task_spawnWorker_def Task_workerSettled_def Task_terminateWorker_def
           Task_addHandler_def Task_createStream_def Task_isActive_def Let_def
           Handler_setFunction_def new_Handler_def\<close>)
  qed
  have fin: "\<not> Task_isActive t \<longrightarrow> t_status (task_exec es' t) = t_status t"
    using terminal_exec[OF inv, of es'] by simp
  have rej: "t_status t \<noteq> pending \<longrightarrow>
            task_step (Run deferred streaming) t =
              (t, Settled (Rejected
                 (FreshError (''Cannot run task: status is '' @ TaskStatus_str (t_status t)))))"
    by (simp add: Task_run_begin_def)
  from edge fin rej show ?thesis by blast
qed


theorem task_status_transitions_witness:
  "\<not> Task_isActive (task_exec [Run False False, FnSettled (Returned ''v'')]
        (new_Task ''s'' False None ''ref_1''))
   \<and> t_status (task_exec [Run False False, FnSettled (Returned ''v'')]
        (new_Task ''s'' False None ''ref_1'')) = success
   \<and> t_status (task_exec [Abort, Run False False, FnSettled (Threw (ThrownValue ''x''))]
        (task_exec [Run False False, FnSettled (Returned ''v'')]
          (new_Task ''s'' False None ''ref_1''))) = success
   \<and> snd (task_step (Run False False)
        (task_exec [Run False False, FnSettled (Returned ''v'')]
          (new_Task ''s'' False None ''ref_1''))) =
       Settled (Rejected (FreshError ''Cannot run task: status is success''))"
proof -
  let ?tr = "task_exec [Run False False, FnSettled (Returned ''v'')]
        (new_Task ''s'' False None ''ref_1'')"
  have st: "t_status ?tr = success" by (simp add: task_defs)
  then have na: "\<not> Task_isActive ?tr" by (simp add: Task_isActive_def)
  from task_status_transitions[OF refl,
      where es = "[Run False False, FnSettled (Returned ''v'')]"
        and sid = "''s''" and pool = False and r = None and gen = "''ref_1''" and e = Abort
        and es' = "[Abort, Run False False, FnSettled (Threw (ThrownValue ''x''))]"
        and deferred = False and streaming = False] st na
  show ?thesis by simp
qed



text \<open>
  The continuation of a spawned worker touches the worker only: no field of the owning
  Task that \<open>run\<close> reads or reports changes.
\<close>

lemma workerSettled_leaves_task:
  "t_status (Task_workerSettled ix oc t) = t_status t
   \<and> t_outcome (Task_workerSettled ix oc t) = t_outcome t
   \<and> t_error (Task_workerSettled ix oc t) = t_error t
   \<and> t_result (Task_workerSettled ix oc t) = t_result t
   \<and> t_signal_aborted (Task_workerSettled ix oc t) = t_signal_aborted t
   \<and> t_awaiting (Task_workerSettled ix oc t) = t_awaiting t"
  by (simp add: Task_workerSettled_def)

lemma worker_failure_recorded:
  "\<not> w_aborted w \<Longrightarrow>
     Worker_start_settle (Threw x) w =
       (w\<lparr>w_status := W_failed, w_error := Some (toError x), w_awaiting := False\<rparr>,
        Some (toError x))"
  by simp

text \<open>
  C8. A Task runs, its function spawns a worker, and the worker's function throws
  \<open>Error('boom')\<close> with no signal aborted. The worker is failed and holds the error,
  but the owning Task is still running with no error stored, and when its function
  returns \<open>'ok'\<close> its \<open>run\<close> resolves with \<open>'ok'\<close> and the Task finalizes as success:
  the failure neither reaches the awaited promise nor finalizes the owner as error.
\<close>

theorem worker_failure_swallowed:
  "t_status (task_exec [Run False False, SpawnWorker ''worker_1'',
       WorkerSettled 0 (Threw (ThrownError (ExternalError ''boom'')))]
       (new_Task ''s'' False None ''ref_1'')) = running
   \<and> t_error (task_exec [Run False False, SpawnWorker ''worker_1'',
       WorkerSettled 0 (Threw (ThrownError (ExternalError ''boom'')))]
       (new_Task ''s'' False None ''ref_1'')) = None
   \<and> \<not> t_signal_aborted (task_exec [Run False False, SpawnWorker ''worker_1'',
       WorkerSettled 0 (Threw (ThrownError (ExternalError ''boom'')))]
       (new_Task ''s'' False None ''ref_1''))
   \<and> map w_status (t_worker_objs (task_exec [Run False False, SpawnWorker ''worker_1'',
       WorkerSettled 0 (Threw (ThrownError (ExternalError ''boom'')))]
       (new_Task ''s'' False None ''ref_1''))) = [W_failed]
   \<and> map w_error (t_worker_objs (task_exec [Run False False, SpawnWorker ''worker_1'',
       WorkerSettled 0 (Threw (ThrownError (ExternalError ''boom'')))]
       (new_Task ''s'' False None ''ref_1''))) = [Some (ExternalError ''boom'')]
   \<and> snd (task_step (FnSettled (Returned ''ok''))
       (task_exec [Run False False, SpawnWorker ''worker_1'',
         WorkerSettled 0 (Threw (ThrownError (ExternalError ''boom'')))]
         (new_Task ''s'' False None ''ref_1''))) = Settled (Resolved ''ok'')
   \<and> t_status (task_exec [Run False False, SpawnWorker ''worker_1'',
       WorkerSettled 0 (Threw (ThrownError (ExternalError ''boom''))), FnSettled (Returned ''ok'')]
       (new_Task ''s'' False None ''ref_1'')) = success"
  by (simp add: task_defs)


section \<open>Properties of TaskTable and Scope\<close>


lemma Task_abort_idem: "Task_abort (Task_abort t) = Task_abort t"
  by (simp add: Task_abort_def Task_isActive_def)

lemma Task_abort_keeps: "t_ref (Task_abort t) = t_ref t" "t_scopeId (Task_abort t) = t_scopeId t"
  by (simp_all add: Task_abort_def)

lemma Task_abort_inactive: "\<not> Task_isActive (Task_abort t)"
  by (simp add: Task_abort_def Task_isActive_def)

lemma Task_abort_signal: "Task_isActive t \<Longrightarrow> t_signal_aborted (Task_abort t)"
  by (simp add: Task_abort_def)

lemma Task_abort_settled: "\<not> Task_isActive t \<Longrightarrow> Task_abort t = t"
  by (simp add: Task_abort_def)

lemma run_settle_keeps:
  "t_ref (fst (Task_run_settle oc t)) = t_ref t \<and> t_scopeId (fst (Task_run_settle oc t)) = t_scopeId t"
  by (cases oc) (auto simp: Task_run_catch_def)

lemma task_step_keeps:
  "t_ref (fst (task_step e t)) = t_ref t \<and> t_scopeId (fst (task_step e t)) = t_scopeId t"
  by (cases e)
     (auto simp: fst_task_step run_settle_keeps Task_run_begin_def Task_run_catch_def Task_abort_def
        Task_spawnWorker_def Task_workerSettled_def Task_terminateWorker_def
        Task_addHandler_def Task_createStream_def Let_def
      simp del: task_step.simps Task_run_settle.simps
      split: option.splits sum.splits)

lemma length_abort_at [simp]: "length (abort_at sid a h) = length h"
  by (simp add: abort_at_def)

lemma length_fold_abort_at [simp]: "length (fold (abort_at sid) as h) = length h"
  by (induction as arbitrary: h) simp_all

lemma nth_abort_at:
  "b < length h \<Longrightarrow>
     abort_at sid a h ! b = (if b = a \<and> t_scopeId (h ! b) = sid then Task_abort (h ! b) else h ! b)"
  by (auto simp: abort_at_def nth_list_update)

lemma nth_fold_abort_at:
  "b < length h \<Longrightarrow>
     fold (abort_at sid) as h ! b =
       (if b \<in> set as \<and> t_scopeId (h ! b) = sid then Task_abort (h ! b) else h ! b)"
proof (induction as arbitrary: h)
  case Nil
  then show ?case by simp
next
  case (Cons a as)
  have "b < length (abort_at sid a h)" using Cons.prems by simp
  from Cons.IH[OF this] Cons.prems show ?case
    by (auto simp: nth_abort_at Task_abort_idem Task_abort_keeps)
qed

lemma nth_abortAll:
  "b < length h \<Longrightarrow>
     TaskTable_abortAll sid tbl h ! b =
       (if b \<in> snd ` set tbl \<and> t_scopeId (h ! b) = sid then Task_abort (h ! b) else h ! b)"
  by (simp add: TaskTable_abortAll_def nth_fold_abort_at map_values_def)

lemma length_abortAll [simp]: "length (TaskTable_abortAll sid tbl h) = length h"
  by (simp add: TaskTable_abortAll_def)

lemma set_map_set: "set (map_set k v m) \<subseteq> insert (k, v) (set m)"
  by (induction m) (auto split: if_splits)

lemma set_map_delete: "set (map_delete k m) \<subseteq> set m"
  by (auto simp: map_delete_def)


lemma scope_inv_new: "scope_inv (new_Scope sid name workers pool)"
  by (simp add: scope_inv_def new_Scope_def)

lemma scope_inv_fsm [simp]: "scope_inv (s\<lparr>sc_fsm := f\<rparr>) = scope_inv s"
  by (simp add: scope_inv_def)

lemma scope_inv_runs [simp]: "scope_inv (s\<lparr>sc_runs := rs\<rparr>) = scope_inv s"
  by (simp add: scope_inv_def)

lemma scope_inv_table:
  "scope_inv s \<Longrightarrow> set tbl \<subseteq> set (sc_tasks s) \<Longrightarrow> scope_inv (s\<lparr>sc_tasks := tbl\<rparr>)"
  by (auto simp: scope_inv_def)

lemma scope_inv_store_update:
  assumes "scope_inv s" and "a < length (store s)" and "task_inv t"
      and "t_ref t = t_ref (store s ! a)" and "t_scopeId t = t_scopeId (store s ! a)"
  shows "scope_inv (s\<lparr>store := (store s)[a := t]\<rparr>)"
proof -
  have 1: "\<forall>u \<in> set ((store s)[a := t]). task_inv u"
    using assms(1,3) by (auto simp: scope_inv_def dest: set_update_subset_insert[THEN subsetD])
  have 2: "\<forall>(r, b) \<in> set (sc_tasks s).
      b < length ((store s)[a := t]) \<and> t_ref ((store s)[a := t] ! b) = r
      \<and> t_scopeId ((store s)[a := t] ! b) = sc_id s"
    using assms by (auto simp: scope_inv_def nth_list_update)
  from 1 2 show ?thesis by (simp add: scope_inv_def)
qed

lemma scope_inv_abortAll:
  assumes "scope_inv s"
  shows "scope_inv (s\<lparr>store := TaskTable_abortAll sid tbl (store s)\<rparr>)"
proof -
  let ?h = "TaskTable_abortAll sid tbl (store s)"
  have el: "\<And>b. b < length (store s) \<Longrightarrow> ?h ! b = store s ! b \<or> ?h ! b = Task_abort (store s ! b)"
    by (simp add: nth_abortAll)
  have 1: "\<forall>u \<in> set ?h. task_inv u"
  proof
    fix u assume "u \<in> set ?h"
    then obtain b where b: "b < length (store s)" "u = ?h ! b"
      by (auto simp: in_set_conv_nth)
    have "task_inv (store s ! b)" using assms b(1) by (simp add: scope_inv_def)
    then show "task_inv u" using el[OF b(1)] b(2) by (auto simp: task_inv_abort)
  qed
  have 2: "\<forall>(r, b) \<in> set (sc_tasks s).
      b < length ?h \<and> t_ref (?h ! b) = r \<and> t_scopeId (?h ! b) = sc_id s"
  proof (clarify)
    fix r b assume "(r, b) \<in> set (sc_tasks s)"
    then have b: "b < length (store s)" "t_ref (store s ! b) = r" "t_scopeId (store s ! b) = sc_id s"
      using assms by (auto simp: scope_inv_def)
    then show "b < length ?h \<and> t_ref (?h ! b) = r \<and> t_scopeId (?h ! b) = sc_id s"
      using el[OF b(1)] by (auto simp: Task_abort_keeps)
  qed
  from 1 2 show ?thesis by (simp add: scope_inv_def)
qed

lemma scope_inv_dispose: "scope_inv s \<Longrightarrow> scope_inv (Scope_dispose s)"
  by (simp add: Scope_dispose_def Let_def scope_inv_abortAll)

lemma scope_inv_createTask:
  assumes "scope_inv s" and "Scope_createTask r gen s = Inr (s', a)"
  shows "scope_inv s' \<and> a = length (store s) \<and> length (store s') = Suc (length (store s))
       \<and> store s' ! a = new_Task (sc_id s) (sc_hasPool s) r gen
       \<and> (\<forall>b < length (store s). store s' ! b = store s ! b)"
proof -
  let ?t = "new_Task (sc_id s) (sc_hasPool s) r gen"
  let ?h = "store s @ [?t]"
  let ?tbl = "TaskTable_register (length (store s)) ?h (sc_tasks s)"
  have inv1: "scope_inv (s\<lparr>store := ?h, sc_tasks := ?tbl\<rparr>)"
  proof -
    have 1: "\<forall>u \<in> set ?h. task_inv u"
      using assms(1) by (auto simp: scope_inv_def task_inv_new)
    have sub: "set ?tbl \<subseteq> insert (t_ref ?t, length (store s)) (set (sc_tasks s))"
      using set_map_set[of "t_ref ?t" "length (store s)" "sc_tasks s"]
      by (simp add: TaskTable_register_def)
    have 2: "\<forall>(r', b) \<in> set ?tbl. b < length ?h \<and> t_ref (?h ! b) = r' \<and> t_scopeId (?h ! b) = sc_id s"
    proof (clarify)
      fix r' b assume "(r', b) \<in> set ?tbl"
      then consider "r' = t_ref ?t" "b = length (store s)" | "(r', b) \<in> set (sc_tasks s)"
        using sub by auto
      then show "b < length ?h \<and> t_ref (?h ! b) = r' \<and> t_scopeId (?h ! b) = sc_id s"
      proof cases
        case 1
        then show ?thesis by (simp add: new_Task_def)
      next
        case 2
        then have "b < length (store s)" "t_ref (store s ! b) = r'" "t_scopeId (store s ! b) = sc_id s"
          using assms(1) by (auto simp: scope_inv_def)
        then show ?thesis by (simp add: nth_append)
      qed
    qed
    from 1 2 show ?thesis by (simp add: scope_inv_def)
  qed
  from assms(2) inv1 show ?thesis
    by (auto simp: Scope_createTask_def Let_def nth_append split: if_splits)
qed

lemma scope_inv_run_begin: "scope_inv s \<Longrightarrow> scope_inv (fst (Scope_run_begin d gen s))"
proof -
  assume inv: "scope_inv s"
  show ?thesis
  proof (cases "Scope_createTask None gen s")
    case (Inl e)
    then show ?thesis using inv by (simp add: Scope_run_begin_def)
  next
    case (Inr p)
    obtain s1 a where p: "p = (s1, a)" by (cases p)
    note c = scope_inv_createTask[OF inv Inr[unfolded p]]
    let ?t = "fst (Task_run_begin d (store s1 ! a))"
    have a: "a < length (store s1)" using c by simp
    have "store s1 ! a = new_Task (sc_id s) (sc_hasPool s) None gen" using c by blast
    then have "task_inv (store s1 ! a)" by (simp only: task_inv_new)
    then have ti: "task_inv ?t" by (rule task_inv_run_begin)
    have k: "t_ref ?t = t_ref (store s1 ! a)" "t_scopeId ?t = t_scopeId (store s1 ! a)"
      by (auto simp: Task_run_begin_def Task_run_catch_def Let_def)
    have u: "scope_inv (s1\<lparr>store := (store s1)[a := ?t]\<rparr>)"
      using scope_inv_store_update[OF _ a ti k] c by simp
    have u2: "scope_inv (s1\<lparr>store := (store s1)[a := ?t],
         sc_tasks := TaskTable_unregister (t_ref ?t) (sc_tasks s1)\<rparr>)"
      using scope_inv_table[OF u, of "TaskTable_unregister (t_ref ?t) (sc_tasks s1)"]
        set_map_delete[of "t_ref ?t" "sc_tasks s1"]
      by (simp add: TaskTable_unregister_def)
    show ?thesis using Inr p u u2
      by (auto simp: Scope_run_begin_def split: prod.splits option.splits)
  qed
qed

lemma scope_inv_abortTask: "scope_inv s \<Longrightarrow> scope_inv (fst (Scope_abortTask r s))"
proof -
  assume inv: "scope_inv s"
  show ?thesis
  proof (cases "TaskTable_get r (sc_tasks s)")
    case None
    then show ?thesis using inv by (simp add: Scope_abortTask_def)
  next
    case (Some a)
    then have "(r, a) \<in> set (sc_tasks s)" by (simp add: TaskTable_get_def map_of_SomeD)
    then have a: "a < length (store s)" using inv by (auto simp: scope_inv_def)
    have ti: "task_inv (Task_abort (store s ! a))"
      using inv a by (simp add: scope_inv_def task_inv_abort)
    have u: "scope_inv (s\<lparr>store := (store s)[a := Task_abort (store s ! a)]\<rparr>)"
      using scope_inv_store_update[OF inv a ti] by (simp add: Task_abort_keeps)
    have "scope_inv (s\<lparr>store := (store s)[a := Task_abort (store s ! a)],
         sc_tasks := TaskTable_unregister r (sc_tasks s)\<rparr>)"
      using scope_inv_table[OF u, of "TaskTable_unregister r (sc_tasks s)"]
        set_map_delete[of r "sc_tasks s"]
      by (simp add: TaskTable_unregister_def)
    then show ?thesis using Some a by (simp add: Scope_abortTask_def)
  qed
qed

lemma scope_inv_onTask: "scope_inv s \<Longrightarrow> scope_inv (fst (Scope_onTask a e s))"
proof -
  assume inv: "scope_inv s"
  show ?thesis
  proof (cases "a < length (store s)")
    case False
    then show ?thesis using inv by (simp add: Scope_onTask_def)
  next
    case True
    let ?t = "fst (task_step e (store s ! a))"
    have ti: "task_inv ?t" using inv True by (simp add: scope_inv_def task_inv_step)
    have u: "scope_inv (s\<lparr>store := (store s)[a := ?t]\<rparr>)"
      using scope_inv_store_update[OF inv True ti] by (simp add: task_step_keeps)
    have u2: "scope_inv (s\<lparr>store := (store s)[a := ?t],
         sc_tasks := TaskTable_unregister (t_ref ?t) (sc_tasks s)\<rparr>)"
      using scope_inv_table[OF u, of "TaskTable_unregister (t_ref ?t) (sc_tasks s)"]
        set_map_delete[of "t_ref ?t" "sc_tasks s"]
      by (simp add: TaskTable_unregister_def)
    show ?thesis using True u u2
      by (auto simp: Scope_onTask_def Let_def split: prod.splits simp del: task_step.simps)
  qed
qed

lemma scope_inv_step: "scope_inv s \<Longrightarrow> scope_inv (step e s)"
proof (cases e)
  case (CreateTask r gen)
  assume "scope_inv s"
  then show ?thesis using CreateTask scope_inv_createTask[of s r gen]
    by (auto split: sum.splits)
qed (auto simp: Scope_mount_def Scope_suspend_def Scope_resume_def Scope_abortAll_def
       scope_inv_abortAll scope_inv_dispose scope_inv_run_begin scope_inv_abortTask
       scope_inv_onTask split: prod.splits)

lemma scope_inv_exec: "scope_inv s \<Longrightarrow> scope_inv (exec es s)"
  by (induction es arbitrary: s) (simp_all add: scope_inv_step)

lemma scope_inv_reachable: "scope_inv (exec es (new_Scope sid name workers pool))"
  by (simp add: scope_inv_exec scope_inv_new)


lemma store_fsm_upd [simp]: "store (fst (Scope_mount s)) = store s"
  "store (fst (Scope_suspend s)) = store s" "store (fst (Scope_resume s)) = store s"
  by (simp_all add: Scope_mount_def Scope_suspend_def Scope_resume_def split: prod.splits)

lemma settled_abortAll:
  "a < length h \<Longrightarrow> \<not> Task_isActive (h ! a) \<Longrightarrow> TaskTable_abortAll sid tbl h ! a = h ! a"
  by (simp add: nth_abortAll Task_abort_settled)

lemma settled_step:
  assumes "scope_inv s" and "a < length (store s)" and "\<not> Task_isActive (store s ! a)"
  shows "a < length (store (step e s))
       \<and> t_status (store (step e s) ! a) = t_status (store s ! a)
       \<and> t_signal_aborted (store (step e s) ! a) = t_signal_aborted (store s ! a)"
proof (cases e)
  case Dispose
  then show ?thesis using assms(2,3)
    by (simp add: Scope_dispose_def Let_def settled_abortAll)
next
  case AbortAll
  then show ?thesis using assms(2,3)
    by (simp add: Scope_abortAll_def settled_abortAll)
next
  case (CreateTask r gen)
  show ?thesis
  proof (cases "Scope_createTask r gen s")
    case (Inl err)
    then show ?thesis using CreateTask assms(2) by simp
  next
    case (Inr p)
    obtain s1 b where p: "p = (s1, b)" by (cases p)
    from scope_inv_createTask[OF assms(1) Inr[unfolded p]] show ?thesis
      using CreateTask Inr p assms(2) by simp
  qed
next
  case (ScopeRun d str gen)
  show ?thesis
  proof (cases "Scope_createTask None gen s")
    case (Inl err)
    then show ?thesis using ScopeRun assms(2) by (simp add: Scope_run_begin_def)
  next
    case (Inr p)
    obtain s1 b where p: "p = (s1, b)" by (cases p)
    note c = scope_inv_createTask[OF assms(1) Inr[unfolded p]]
    then have "b \<noteq> a" "a < length (store s1)" "store s1 ! a = store s ! a"
      using assms(2) by auto
    then show ?thesis using ScopeRun Inr p
      by (auto simp: Scope_run_begin_def split: prod.splits option.splits)
  qed
next
  case (AbortTask r)
  then show ?thesis using assms(2,3)
    by (auto simp: Scope_abortTask_def nth_list_update Task_abort_settled split: option.splits)
next
  case (OnTask b ev)
  have ti: "task_inv (store s ! a)" using assms(1,2) by (simp add: scope_inv_def)
  note ts = terminal_step[OF ti assms(3), of ev]
  show ?thesis using OnTask assms(2) ts
    by (auto simp: Scope_onTask_def Let_def nth_list_update split: prod.splits
             simp del: task_step.simps)
qed (use assms(2) in simp_all)

lemma settled_exec:
  assumes "scope_inv s" and "a < length (store s)" and "\<not> Task_isActive (store s ! a)"
  shows "a < length (store (exec es s))
       \<and> t_status (store (exec es s) ! a) = t_status (store s ! a)
       \<and> t_signal_aborted (store (exec es s) ! a) = t_signal_aborted (store s ! a)"
  using assms
proof (induction es arbitrary: s)
  case Nil
  then show ?case by simp
next
  case (Cons e es)
  note st = settled_step[OF Cons.prems, of e]
  have i: "scope_inv (step e s)" using Cons.prems(1) by (rule scope_inv_step)
  have n: "\<not> Task_isActive (store (step e s) ! a)"
    using st Cons.prems(3) by (simp add: Task_isActive_def)
  from Cons.IH[OF i _ n] st show ?case by simp
qed

text \<open>
  C1, amended. Let \<open>s\<close> be any state of a Scope reachable from its construction, alive,
  and let the Task at address \<open>a\<close> be registered in its table when \<open>dispose()\<close> is
  called. After \<open>dispose()\<close>, and after whatever events \<open>es'\<close> follow it, that Task is
  not active; if it was active when \<open>dispose()\<close> was called its signal is aborted; if
  it had already settled, \<open>dispose()\<close> leaves its signal as it was.
\<close>

theorem dispose_aborts_registered:
  assumes "s = exec es (new_Scope sid name workers pool)"
      and "isAlive (sc_fsm s)"
      and "(r, a) \<in> set (sc_tasks s)"
      and "s' = exec es' (Scope_dispose s)"
  shows "\<not> Task_isActive (store s' ! a)
       \<and> (Task_isActive (store s ! a) \<longrightarrow> t_signal_aborted (store s' ! a))
       \<and> (\<not> Task_isActive (store s ! a) \<longrightarrow>
            t_signal_aborted (store s' ! a) = t_signal_aborted (store s ! a))"
proof -
  have inv: "scope_inv s" using assms(1) by (simp add: scope_inv_reachable)
  have a: "a < length (store s)" "t_scopeId (store s ! a) = sc_id s"
    using inv assms(3) by (auto simp: scope_inv_def)
  let ?d = "Scope_dispose s"
  have "a \<in> snd ` set (sc_tasks s)" using assms(3) by force
  then have d: "store ?d ! a = Task_abort (store s ! a)" "a < length (store ?d)"
    using a assms(2) by (simp_all add: Scope_dispose_def Let_def nth_abortAll)
  have n: "\<not> Task_isActive (store ?d ! a)" using d by (simp add: Task_abort_inactive)
  have i: "scope_inv ?d" using inv by (rule scope_inv_dispose)
  note se = settled_exec[OF i d(2) n, of es']
  have 1: "\<not> Task_isActive (store s' ! a)"
    using se n assms(4) by (simp add: Task_isActive_def)
  have 2: "Task_isActive (store s ! a) \<longrightarrow> t_signal_aborted (store s' ! a)"
    using se d assms(4) by (simp add: Task_abort_signal)
  have 3: "\<not> Task_isActive (store s ! a) \<longrightarrow>
            t_signal_aborted (store s' ! a) = t_signal_aborted (store s ! a)"
    using se d assms(4) by (simp add: Task_abort_settled)
  from 1 2 3 show ?thesis by blast
qed


text \<open>The definitions a concrete Scope run unfolds to.\<close>

lemmas scope_defs =
  new_Scope_def Scope_mount_def Scope_suspend_def Scope_resume_def Scope_dispose_def
  Scope_abortAll_def Scope_createTask_def Scope_run_begin_def Scope_abortTask_def
  Scope_onTask_def TaskTable_register_def TaskTable_unregister_def TaskTable_get_def
  TaskTable_abortAll_def abort_at_def transition_def isAlive_def canExecute_def
  map_delete_def

text \<open>
  C1, as stated, fails: a Task created by \<open>createTask\<close> and run to success is still
  registered when the Scope is disposed, the Scope reaches \<open>DISPOSED\<close>, and the Task's
  signal is not aborted.
\<close>

theorem dispose_settled_counterexample:
  "isAlive (sc_fsm (exec [Mount, CreateTask None ''ref_1'', OnTask 0 (Run False False),
         OnTask 0 (FnSettled (Returned ''v''))] (new_Scope ''s'' ''S'' None False)))
   \<and> sc_tasks (exec [Mount, CreateTask None ''ref_1'', OnTask 0 (Run False False),
         OnTask 0 (FnSettled (Returned ''v''))] (new_Scope ''s'' ''S'' None False)) = [(''ref_1'', 0)]
   \<and> sc_fsm (exec [Mount, CreateTask None ''ref_1'', OnTask 0 (Run False False),
         OnTask 0 (FnSettled (Returned ''v'')), Dispose] (new_Scope ''s'' ''S'' None False)) = DISPOSED
   \<and> \<not> t_signal_aborted (store (exec [Mount, CreateTask None ''ref_1'', OnTask 0 (Run False False),
         OnTask 0 (FnSettled (Returned ''v'')), Dispose] (new_Scope ''s'' ''S'' None False)) ! 0)"
  by (simp add: scope_defs task_defs)

theorem dispose_aborts_registered_witness:
  "isAlive (sc_fsm (exec [Mount, CreateTask None ''ref_1'', CreateTask None ''ref_2'',
        OnTask 0 (Run False False)] (new_Scope ''s'' ''S'' None False)))
   \<and> (''ref_2'', 1) \<in> set (sc_tasks (exec [Mount, CreateTask None ''ref_1'', CreateTask None ''ref_2'',
        OnTask 0 (Run False False)] (new_Scope ''s'' ''S'' None False)))
   \<and> Task_isActive (store (exec [Mount, CreateTask None ''ref_1'', CreateTask None ''ref_2'',
        OnTask 0 (Run False False)] (new_Scope ''s'' ''S'' None False)) ! 1)
   \<and> \<not> Task_isActive (store (exec [OnTask 1 (Run False False)] (Scope_dispose
        (exec [Mount, CreateTask None ''ref_1'', CreateTask None ''ref_2'',
          OnTask 0 (Run False False)] (new_Scope ''s'' ''S'' None False)))) ! 1)
   \<and> t_signal_aborted (store (exec [OnTask 1 (Run False False)] (Scope_dispose
        (exec [Mount, CreateTask None ''ref_1'', CreateTask None ''ref_2'',
          OnTask 0 (Run False False)] (new_Scope ''s'' ''S'' None False)))) ! 1)"
proof -
  let ?s = "exec [Mount, CreateTask None ''ref_1'', CreateTask None ''ref_2'',
        OnTask 0 (Run False False)] (new_Scope ''s'' ''S'' None False)"
  have al: "isAlive (sc_fsm ?s)" by (simp add: scope_defs task_defs)
  have reg: "(''ref_2'', 1) \<in> set (sc_tasks ?s)" by (simp add: scope_defs task_defs)
  have act: "Task_isActive (store ?s ! 1)" by (simp add: scope_defs task_defs)
  from dispose_aborts_registered[OF refl al reg refl, of "[OnTask 1 (Run False False)]"] al reg act
  show ?thesis by simp
qed

text \<open>
  C2. A Scope that was never mounted is alive, in state \<open>INIT\<close>. \<open>dispose()\<close> passes the
  guard, and both \<open>transition('dispose')\<close> calls leave the state \<open>INIT\<close>: the Scope is
  still alive after \<open>dispose()\<close> returned, and a later \<open>mount()\<close> attaches it.
\<close>

theorem dispose_in_INIT:
  "isAlive (sc_fsm (new_Scope ''s'' ''S'' None False))
   \<and> sc_fsm (Scope_dispose (new_Scope ''s'' ''S'' None False)) = INIT
   \<and> isAlive (sc_fsm (Scope_dispose (new_Scope ''s'' ''S'' None False)))
   \<and> sc_fsm (exec [Dispose, Mount] (new_Scope ''s'' ''S'' None False)) = ATTACHED"
  by (simp add: scope_defs)

text \<open>
  From the three other alive states \<open>dispose()\<close> does reach \<open>DISPOSED\<close>, and a second
  call changes nothing.
\<close>

lemma dispose_after_mount:
  assumes "sc_fsm s = ATTACHED \<or> sc_fsm s = RUNNING \<or> sc_fsm s = SUSPENDED"
  shows "sc_fsm (Scope_dispose s) = DISPOSED \<and> Scope_dispose (Scope_dispose s) = Scope_dispose s"
  using assms by (auto simp: Scope_dispose_def Let_def transition_def isAlive_def)

text \<open>
  C9. Two calls \<open>createTask('r')\<close> on a mounted Scope construct two Tasks that both
  carry the ref \<open>'r'\<close> and are both active. The second registration overwrites the
  table entry of the first, and \<open>dispose()\<close> then aborts the second Task only: the
  first stays active.
\<close>

theorem createTask_same_ref:
  "map t_ref (store (exec [Mount, CreateTask (Some ''r'') ''ref_1'', CreateTask (Some ''r'') ''ref_2'']
        (new_Scope ''s'' ''S'' None False))) = [''r'', ''r'']
   \<and> map Task_isActive (store (exec [Mount, CreateTask (Some ''r'') ''ref_1'',
        CreateTask (Some ''r'') ''ref_2''] (new_Scope ''s'' ''S'' None False))) = [True, True]
   \<and> sc_tasks (exec [Mount, CreateTask (Some ''r'') ''ref_1'', CreateTask (Some ''r'') ''ref_2'']
        (new_Scope ''s'' ''S'' None False)) = [(''r'', 1)]
   \<and> map Task_isActive (store (exec [Mount, CreateTask (Some ''r'') ''ref_1'',
        CreateTask (Some ''r'') ''ref_2'', Dispose] (new_Scope ''s'' ''S'' None False))) = [True, False]"
  by (simp add: scope_defs task_defs)

text \<open>
  What the table does guarantee: it never holds two entries under one ref, in any
  state of a Scope reachable from its construction.
\<close>


lemma keys_map_set: "fst ` set (map_set k v m) = insert k (fst ` set m)"
  by (induction k v m rule: map_set.induct) (simp_all add: insert_commute)

lemma distinct_map_set: "distinct (map fst m) \<Longrightarrow> distinct (map fst (map_set k v m))"
proof (induction m)
  case Nil
  then show ?case by simp
next
  case (Cons kv m)
  obtain k' v' where kv: "kv = (k', v')" by (cases kv)
  show ?case
  proof (cases "k' = k")
    case True
    then show ?thesis using Cons.prems kv by simp
  next
    case False
    have "k' \<notin> fst ` set (map_set k v m)"
      using Cons.prems kv False by (simp add: keys_map_set)
    then show ?thesis using Cons kv False by simp
  qed
qed

lemma distinct_map_delete: "distinct (map fst m) \<Longrightarrow> distinct (map fst (map_delete k m))"
  by (simp add: map_delete_def distinct_map_filter)

lemma table_keys_step:
  "distinct (map fst (sc_tasks s)) \<Longrightarrow> distinct (map fst (sc_tasks (step e s)))"
  by (cases e)
     (auto simp: Scope_mount_def Scope_suspend_def Scope_resume_def Scope_dispose_def
        Scope_abortAll_def Scope_createTask_def Scope_run_begin_def Scope_abortTask_def
        Scope_onTask_def TaskTable_register_def TaskTable_unregister_def Let_def
        distinct_map_set distinct_map_delete
      simp del: task_step.simps
      split: prod.splits sum.splits option.splits if_splits)

lemma table_keys_distinct:
  "distinct (map fst (sc_tasks (exec es (new_Scope sid name workers pool))))"
proof -
  have "distinct (map fst (sc_tasks s)) \<Longrightarrow> distinct (map fst (sc_tasks (exec es s)))" for s
    by (induction es arbitrary: s) (simp_all add: table_keys_step)
  then show ?thesis by (simp add: new_Scope_def)
qed

section \<open>Properties of WorkerPool\<close>


lemma length_map_set: "length (map_set k v m) \<le> Suc (length m)"
  by (induction m) auto

lemma length_map_delete: "length (map_delete k m) \<le> length m"
  by (simp add: map_delete_def)

lemma add_worker_size:
  "pool_size (add_worker wid p) \<le> Suc (pool_size p) \<and> maxWorkers (add_worker wid p) = maxWorkers p"
  by (simp add: add_worker_def pool_size_def length_map_set)

lemma fold_add_worker_size:
  "pool_size (fold (\<lambda>i. add_worker (gen i)) is p) \<le> pool_size p + length is
   \<and> maxWorkers (fold (\<lambda>i. add_worker (gen i)) is p) = maxWorkers p"
proof (induction "is" arbitrary: p)
  case Nil
  then show ?case by simp
next
  case (Cons i "is")
  from Cons[of "add_worker (gen i) p"] add_worker_size[of "gen i" p] show ?case by simp
qed

lemma initializeWorkers_size:
  "pool_size (initializeWorkers gen n p) \<le> pool_size p + nat \<lceil>n\<rceil>
   \<and> maxWorkers (initializeWorkers gen n p) = maxWorkers p"
  using fold_add_worker_size[of gen "[0..<nat \<lceil>n\<rceil>]" p] by (simp add: initializeWorkers_def)

lemma remove_worker_size:
  "pool_size (remove_worker wid p) \<le> pool_size p \<and> maxWorkers (remove_worker wid p) = maxWorkers p"
  by (simp add: remove_worker_def pool_size_def length_map_delete split: option.splits)

lemma fold_remove_worker_size:
  "pool_size (fold remove_worker ids p) \<le> pool_size p
   \<and> maxWorkers (fold remove_worker ids p) = maxWorkers p"
proof (induction ids arbitrary: p)
  case Nil
  then show ?case by simp
next
  case (Cons i ids)
  from Cons[of "remove_worker i p"] remove_worker_size[of i p] show ?case by simp
qed

lemma processQueue_size:
  "pool_size (processQueue p) = pool_size p \<and> maxWorkers (processQueue p) = maxWorkers p"
  by (simp add: processQueue_def dispatchWork_def pool_size_def split: list.splits option.splits)

lemma pool_scale_bounded:
  assumes "real (pool_size p) \<le> maxWorkers p" and "maxWorkers p \<in> \<int>"
  shows "real (pool_size (pool_scale gen count p)) \<le> maxWorkers p
       \<and> maxWorkers (pool_scale gen count p) = maxWorkers p"
proof -
  define target where "target = min count (maxWorkers p)"
  define current where "current = real (pool_size p)"
  obtain m where m: "maxWorkers p = of_int m" using assms(2) by (auto elim: Ints_cases)
  have sm: "int (pool_size p) \<le> m" using assms(1) m by linarith
  have "target \<le> of_int m" using m by (simp add: target_def)
  then have ct: "\<lceil>target\<rceil> \<le> m" by (simp add: ceiling_le_iff)
  have cd: "\<lceil>target - current\<rceil> = \<lceil>target\<rceil> - int (pool_size p)"
    unfolding current_def by (metis ceiling_diff_of_int of_int_of_nat_eq)
  have up: "real (pool_size (initializeWorkers gen (target - current) p)) \<le> maxWorkers p"
  proof -
    have "pool_size (initializeWorkers gen (target - current) p)
        \<le> pool_size p + nat \<lceil>target - current\<rceil>"
      using initializeWorkers_size[of gen "target - current" p] by blast
    then have "int (pool_size (initializeWorkers gen (target - current) p)) \<le> m"
      using cd ct sm by linarith
    then show ?thesis using m by linarith
  qed
  have upm: "maxWorkers (initializeWorkers gen (target - current) p) = maxWorkers p"
    using initializeWorkers_size[of gen "target - current" p] by simp
  have down: "real (pool_size (shrinkPool (current - target) p)) \<le> maxWorkers p
       \<and> maxWorkers (shrinkPool (current - target) p) = maxWorkers p"
  proof -
    have "pool_size (shrinkPool (current - target) p) \<le> pool_size p
       \<and> maxWorkers (shrinkPool (current - target) p) = maxWorkers p"
      using fold_remove_worker_size[of "collect_idle (current - target) (p_workers p) (p_objs p)" p]
      by (simp add: shrinkPool_def)
    then show ?thesis using assms(1) by linarith
  qed
  have "pool_scale gen count p =
     (if p_disposed p then p
      else if target > current then initializeWorkers gen (target - current) p
      else if target < current then shrinkPool (current - target) p else p)"
    by (simp add: pool_scale_def Let_def target_def current_def)
  then show ?thesis using up upm down assms(1) by auto
qed

lemma pool_step_bounded:
  assumes "real (pool_size p) \<le> maxWorkers p" and "maxWorkers p \<in> \<int>"
  shows "real (pool_size (pool_step e p)) \<le> maxWorkers p
       \<and> maxWorkers (pool_step e p) = maxWorkers p"
proof (cases e)
  case Execute
  then show ?thesis using assms(1)
    by (simp add: pool_execute_def dispatchWork_def pool_size_def Let_def split: option.splits)
next
  case (Scale gen count)
  then show ?thesis using pool_scale_bounded[OF assms] by simp
next
  case DisposePool
  then show ?thesis using assms(1) by (simp add: pool_dispose_def pool_size_def)
next
  case (WorkFinished i)
  then show ?thesis using assms(1)
      processQueue_size[of "p\<lparr>p_objs := (p_objs p)[i := (p_objs p ! i)\<lparr>pw_state := P_idle,
                                                       pw_currentWorkId := None\<rparr>]\<rparr>"]
    by (simp add: pool_workFinished_def pool_size_def)
qed

lemma pool_exec_bounded:
  "real (pool_size p) \<le> maxWorkers p \<Longrightarrow> maxWorkers p \<in> \<int> \<Longrightarrow>
     real (pool_size (pool_exec es p)) \<le> maxWorkers p \<and> maxWorkers (pool_exec es p) = maxWorkers p"
proof (induction es arbitrary: p)
  case Nil
  then show ?case by simp
next
  case (Cons e es)
  note s = pool_step_bounded[OF Cons.prems, of e]
  then have "real (pool_size (pool_step e p)) \<le> maxWorkers (pool_step e p)"
    and "maxWorkers (pool_step e p) \<in> \<int>" using Cons.prems(2) by simp_all
  from Cons.IH[OF this] s show ?case by simp
qed

text \<open>
  A pool constructed with a whole, non-negative \<open>maxWorkers\<close> and
  \<open>defaultWorkers \<le> maxWorkers\<close> never holds more than \<open>maxWorkers\<close> workers, whatever
  is executed, scaled, finished or disposed.
\<close>

lemma pool_bounded_when_default_le_max:
  assumes "dw \<le> mw" and "0 \<le> mw" and "mw \<in> \<int>"
  shows "real (pool_size (pool_exec es (new_WorkerPool dw mw timeout gen))) \<le> mw"
proof -
  let ?p0 = "\<lparr>defaultWorkers = dw, maxWorkers = mw,
        idleTimeout = (case timeout of Some ms \<Rightarrow> ms | None \<Rightarrow> 30000),
        p_objs = [], p_workers = [], p_queue = [], p_disposed = False, p_workCounter = 0\<rparr>"
  obtain m where m: "mw = of_int m" using assms(3) by (auto elim: Ints_cases)
  have "dw \<le> of_int m" using assms(1) m by simp
  then have cd: "\<lceil>dw\<rceil> \<le> m" by (simp add: ceiling_le_iff)
  have m0: "0 \<le> m" using assms(2) m by simp
  have sz: "pool_size (new_WorkerPool dw mw timeout gen) \<le> nat \<lceil>dw\<rceil>"
    and mx: "maxWorkers (new_WorkerPool dw mw timeout gen) = mw"
    using initializeWorkers_size[of gen dw ?p0]
    by (simp_all add: new_WorkerPool_def pool_size_def)
  have "int (pool_size (new_WorkerPool dw mw timeout gen)) \<le> m" using sz cd m0 by linarith
  then have "real (pool_size (new_WorkerPool dw mw timeout gen)) \<le> mw" using m by linarith
  then show ?thesis
    using pool_exec_bounded[of "new_WorkerPool dw mw timeout gen" es] mx assms(3) by simp
qed

text \<open>
  With a \<open>maxWorkers\<close> that is not whole, \<open>scale\<close> itself goes over it: its loop adds
  workers while \<open>i < count\<close>, three of them for the clamped count 2.5.
\<close>

lemma scale_fractional_max:
  "pool_size (pool_scale five_ids 3 (new_WorkerPool 0 (5 / 2) None five_ids)) = 3"
  by (simp add: new_WorkerPool_def initializeWorkers_def pool_scale_def add_worker_def
        pool_size_def five_ids_def upt_rec Let_def)

text \<open>
  C7. \<open>new WorkerPool({ defaultWorkers: 5, maxWorkers: 2 })\<close>, the five drawn ids
  differing: the constructor creates five workers, so \<open>size\<close> is 5 with \<open>maxWorkers\<close> 2,
  and it is still 5 after an \<open>execute\<close> and the end of its work.
\<close>

theorem pool_constructor_exceeds_max:
  "pool_size (new_WorkerPool 5 2 None five_ids) = 5
   \<and> maxWorkers (new_WorkerPool 5 2 None five_ids) = 2
   \<and> pool_size (pool_exec [Execute, WorkFinished 0] (new_WorkerPool 5 2 None five_ids)) = 5"
  by (simp add: new_WorkerPool_def initializeWorkers_def add_worker_def pool_size_def five_ids_def
        upt_rec pool_execute_def findIdleWorker_def map_values_def dispatchWork_def
        pool_workFinished_def processQueue_def Let_def)

section \<open>Properties of Authority.broadcast\<close>


lemma map_of_map_set: "map_of (map_set k v m) k' = (if k' = k then Some v else map_of m k')"
  by (induction m) auto

lemma set_elems_simps [simp]:
  "set_elems [] = []"
  "set_elems (None # es) = set_elems es"
  "set_elems (Some x # es) = x # set_elems es"
  by (simp_all add: set_elems_def)

lemma deliver_quiet:
  assumes "map_of (a_listeners A) channel = Some es"
      and "\<forall>lg p. Some p \<in> set es \<longrightarrow> beh lg p = quiet"
  shows "length es - i < fuel \<Longrightarrow>
     deliver fuel beh channel data i A calls =
       Some (A, calls @ map (\<lambda>p. (p, data)) (set_elems (drop i es)), None)"
proof (induction fuel arbitrary: i calls)
  case 0
  then show ?case by simp
next
  case (Suc fuel)
  show ?case
  proof (cases "i \<ge> length es")
    case True
    then show ?thesis using assms(1) by simp
  next
    case False
    then have i: "i < length es" by simp
    then have d: "drop i es = es ! i # drop (Suc i) es" by (simp add: Cons_nth_drop_Suc)
    have f: "length es - Suc i < fuel" using Suc.prems i by linarith
    show ?thesis
    proof (cases "es ! i")
      case None
      then show ?thesis using assms(1) i d Suc.IH[OF f, of calls] by simp
    next
      case (Some l)
      then have "Some l \<in> set es" using i by (metis nth_mem)
      then have q: "beh calls l = quiet" using assms(2) by blast
      show ?thesis using assms(1) i d Some q Suc.IH[OF f, of "calls @ [(l, data)]"]
        by (simp add: quiet_def)
    qed
  qed
qed

lemma deliver_throw:
  assumes "map_of (a_listeners A) channel = Some (pre @ Some l # post)"
      and "\<forall>lg p. Some p \<in> set pre \<longrightarrow> beh lg p = quiet"
      and "\<forall>lg. throws (beh lg l) = Some x"
  shows "i \<le> length pre \<Longrightarrow> length pre - i < fuel \<Longrightarrow>
     deliver fuel beh channel data i A calls =
       Some (fold do_action (acts (beh (calls @ map (\<lambda>p. (p, data)) (set_elems (drop i pre))) l)) A,
             calls @ map (\<lambda>p. (p, data)) (set_elems (drop i pre)) @ [(l, data)], Some x)"
proof (induction fuel arbitrary: i calls)
  case 0
  then show ?case by simp
next
  case (Suc fuel)
  let ?es = "pre @ Some l # post"
  show ?case
  proof (cases "i = length pre")
    case True
    then show ?thesis using assms(1,3) by (simp add: nth_append)
  next
    case False
    then have i: "i < length pre" using Suc.prems(1) by simp
    then have d: "drop i pre = pre ! i # drop (Suc i) pre" by (simp add: Cons_nth_drop_Suc)
    have n: "?es ! i = pre ! i" using i by (simp add: nth_append)
    have f: "length pre - Suc i < fuel" using Suc.prems(2) i by linarith
    have le: "Suc i \<le> length pre" using i by simp
    show ?thesis
    proof (cases "pre ! i")
      case None
      then show ?thesis using assms(1) i d n Suc.IH[OF le f, of calls] by simp
    next
      case (Some p)
      then have "Some p \<in> set pre" using i by (metis nth_mem)
      then have q: "beh calls p = quiet" using assms(2) by blast
      show ?thesis using assms(1) i d n Some q Suc.IH[OF le f, of "calls @ [(p, data)]"]
        by (simp add: quiet_def)
    qed
  qed
qed

text \<open>
  A throwing listener behind listeners that only return: \<open>broadcast\<close> ends (reading
  one entry more than \<open>pre\<close> has is enough fuel) with the exception, having called the
  listeners before the throwing one and the throwing one, in subscription order.
\<close>

lemma broadcast_throw_quiet:
  assumes "map_of (a_listeners A) channel = Some (pre @ Some l # post)"
      and "\<forall>lg p. Some p \<in> set pre \<longrightarrow> beh lg p = quiet"
      and "\<forall>lg. throws (beh lg l) = Some x"
      and "length pre < fuel"
  shows "Authority_broadcast fuel beh channel data A =
       Some (fold do_action (acts (beh (map (\<lambda>p. (p, data)) (set_elems pre)) l)) A,
             map (\<lambda>p. (p, data)) (set_elems pre) @ [(l, data)], Some x)"
  using deliver_throw[OF assms(1,2,3), of 0 fuel data "[]"] assms(1,4)
  by (simp add: Authority_broadcast_def)


text \<open>
  What every run of the loop that ends has done, whatever the listeners do: each call
  passed \<open>data\<close>, and a call threw exactly if it is the last one, the loop then ending
  with what it threw.
\<close>

lemma deliver_calls:
  assumes "deliver fuel beh channel data i A calls0 = Some (A', calls, r)"
  shows "take (length calls0) calls = calls0 \<and> length calls0 \<le> length calls
       \<and> (r \<noteq> None \<longrightarrow> length calls0 < length calls)
       \<and> (\<forall>k. length calls0 \<le> k \<longrightarrow> k < length calls \<longrightarrow>
             snd (calls ! k) = data
             \<and> throws (beh (take k calls) (fst (calls ! k)))
                 = (if Suc k = length calls then r else None))"
  using assms
proof (induction fuel arbitrary: i A calls0)
  case 0
  then show ?case by simp
next
  case (Suc fuel)
  show ?case
  proof (cases "map_of (a_listeners A) channel")
    case None
    then show ?thesis using Suc.prems by simp
  next
    case (Some es)
    show ?thesis
    proof (cases "i \<ge> length es")
      case True
      then show ?thesis using Suc.prems Some by simp
    next
      case False
      then have i: "i < length es" by simp
      show ?thesis
      proof (cases "es ! i")
        case None
        then have "deliver fuel beh channel data (Suc i) A calls0 = Some (A', calls, r)"
          using Suc.prems Some i by simp
        from Suc.IH[OF this] show ?thesis .
      next
        case l: (Some l)
        let ?c1 = "calls0 @ [(l, data)]"
        show ?thesis
        proof (cases "throws (beh calls0 l)")
          case (Some x)
          then have "calls = ?c1" "r = Some x"
            using Suc.prems \<open>map_of (a_listeners A) channel = Some es\<close> i l
            by (simp_all add: Let_def)
          then show ?thesis using Some
            by (auto simp: nth_append less_Suc_eq)
        next
          case None
          then have d: "deliver fuel beh channel data (Suc i)
               (fold do_action (acts (beh calls0 l)) A) ?c1 = Some (A', calls, r)"
            using Suc.prems \<open>map_of (a_listeners A) channel = Some es\<close> i l
            by (simp add: Let_def)
          note ih = Suc.IH[OF d]
          have tk: "take (Suc (length calls0)) calls = ?c1" using ih by simp
          have t0: "take (length calls0) calls = calls0"
            using arg_cong[OF tk, of "take (length calls0)"] by simp
          have len: "Suc (length calls0) \<le> length calls" using ih by simp
          have at: "calls ! length calls0 = (l, data)"
            using tk len by (metis lessI nth_append_length nth_take)
          have rn: "r \<noteq> None \<longrightarrow> Suc (length calls0) < length calls" using ih by simp
          have "\<forall>k. length calls0 \<le> k \<longrightarrow> k < length calls \<longrightarrow>
             snd (calls ! k) = data
             \<and> throws (beh (take k calls) (fst (calls ! k)))
                 = (if Suc k = length calls then r else None)"
          proof (intro allI impI)
            fix k assume k: "length calls0 \<le> k" "k < length calls"
            show "snd (calls ! k) = data
             \<and> throws (beh (take k calls) (fst (calls ! k)))
                 = (if Suc k = length calls then r else None)"
            proof (cases "k = length calls0")
              case True
              have "r = None" if "Suc k = length calls" using rn that True by auto
              then show ?thesis using True at t0 None by auto
            next
              case False
              then have "length ?c1 \<le> k" using k(1) by simp
              then show ?thesis using ih k(2) by blast
            qed
          qed
          then show ?thesis using t0 len rn by auto
        qed
      qed
    qed
  qed
qed


text \<open>
  C3, amended. In every \<open>broadcast(channel, data)\<close> that ends, a listener that throws
  when it is called ends the delivery: it is the last listener called, what it threw
  leaves \<open>broadcast\<close> to the broadcaster, and no listener called before it threw; an
  exception leaving \<open>broadcast\<close> is always that of a called listener. In particular,
  when the listener \<open>l\<close> throws \<open>x\<close> whenever it is called and the listeners subscribed
  before it (\<open>pre\<close>) only return, without subscribing or unsubscribing anyone,
  \<open>broadcast\<close> ends with \<open>x\<close>, having called exactly those listeners and \<open>l\<close> with
  \<open>data\<close>, in subscription order, and none of the listeners subscribed after \<open>l\<close>
  (\<open>post\<close>).
\<close>

theorem broadcast_throw_propagates:
  "(Authority_broadcast fuel beh channel data A = Some (A', calls, r) \<longrightarrow> k < length calls \<longrightarrow>
      snd (calls ! k) = data
      \<and> throws (beh (take k calls) (fst (calls ! k))) = (if Suc k = length calls then r else None))
   \<and> (Authority_broadcast fuel beh channel data A = Some (A', calls, Some x) \<longrightarrow> calls \<noteq> [])
   \<and> (map_of (a_listeners A) channel = Some (pre @ Some l # post) \<longrightarrow>
        (\<forall>lg p. Some p \<in> set pre \<longrightarrow> beh lg p = quiet) \<longrightarrow>
        (\<forall>lg. throws (beh lg l) = Some x) \<longrightarrow> length pre < fuel \<longrightarrow>
        Authority_broadcast fuel beh channel data A =
          Some (fold do_action (acts (beh (map (\<lambda>p. (p, data)) (set_elems pre)) l)) A,
                map (\<lambda>p. (p, data)) (set_elems pre) @ [(l, data)], Some x))"
proof -
  have 1: "Authority_broadcast fuel beh channel data A = Some (A', calls, r) \<longrightarrow> k < length calls \<longrightarrow>
      snd (calls ! k) = data
      \<and> throws (beh (take k calls) (fst (calls ! k))) = (if Suc k = length calls then r else None)"
  proof (intro impI)
    assume b: "Authority_broadcast fuel beh channel data A = Some (A', calls, r)"
       and k: "k < length calls"
    show "snd (calls ! k) = data
      \<and> throws (beh (take k calls) (fst (calls ! k))) = (if Suc k = length calls then r else None)"
    proof (cases "map_of (a_listeners A) channel")
      case None
      then show ?thesis using b k by (simp add: Authority_broadcast_def)
    next
      case (Some es)
      then have "deliver fuel beh channel data 0 A [] = Some (A', calls, r)"
        using b by (simp add: Authority_broadcast_def)
      from deliver_calls[OF this] k show ?thesis by simp
    qed
  qed
  have 2: "Authority_broadcast fuel beh channel data A = Some (A', calls, Some x) \<longrightarrow> calls \<noteq> []"
  proof (intro impI)
    assume b: "Authority_broadcast fuel beh channel data A = Some (A', calls, Some x)"
    show "calls \<noteq> []"
    proof (cases "map_of (a_listeners A) channel")
      case None
      then show ?thesis using b by (simp add: Authority_broadcast_def)
    next
      case (Some es)
      then have "deliver fuel beh channel data 0 A [] = Some (A', calls, Some x)"
        using b by (simp add: Authority_broadcast_def)
      from deliver_calls[OF this] show ?thesis by auto
    qed
  qed
  have 3: "map_of (a_listeners A) channel = Some (pre @ Some l # post) \<longrightarrow>
        (\<forall>lg p. Some p \<in> set pre \<longrightarrow> beh lg p = quiet) \<longrightarrow>
        (\<forall>lg. throws (beh lg l) = Some x) \<longrightarrow> length pre < fuel \<longrightarrow>
        Authority_broadcast fuel beh channel data A =
          Some (fold do_action (acts (beh (map (\<lambda>p. (p, data)) (set_elems pre)) l)) A,
                map (\<lambda>p. (p, data)) (set_elems pre) @ [(l, data)], Some x)"
    using broadcast_throw_quiet by blast
  from 1 2 3 show ?thesis by blast
qed

lemma grows_refl: "grows es es"
  by (simp add: grows_def)

lemma grows_trans: "grows es es' \<Longrightarrow> grows es' es'' \<Longrightarrow> grows es es''"
  unfolding grows_def by (metis le_trans less_le_trans)

lemma grows_add: "grows es (set_add l es)"
  by (simp add: grows_def set_add_def nth_append)

lemma grows_delete: "grows es (set_delete l es)"
  by (simp add: grows_def set_delete_def)

lemma do_action_grows:
  assumes "map_of (a_listeners A) channel = Some es"
  shows "\<exists>es'. map_of (a_listeners (do_action a A)) channel = Some es' \<and> grows es es'"
proof (cases a)
  case (Subscribe c l)
  show ?thesis
  proof (cases "c = channel")
    case True
    then show ?thesis using Subscribe assms
      by (simp add: Authority_subscribe_def map_of_map_set grows_add)
  next
    case False
    then show ?thesis using Subscribe assms
      by (auto simp: Authority_subscribe_def map_of_map_set grows_refl Let_def
               split: option.splits)
  qed
next
  case (Unsubscribe c l)
  show ?thesis
  proof (cases "c = channel")
    case True
    then show ?thesis using Unsubscribe assms
      by (simp add: Authority_unsubscribe_def map_of_map_set grows_delete)
  next
    case False
    then show ?thesis using Unsubscribe assms
      by (auto simp: Authority_unsubscribe_def map_of_map_set grows_refl split: option.splits)
  qed
qed

lemma fold_do_action_grows:
  "map_of (a_listeners A) channel = Some es \<Longrightarrow>
     \<exists>es'. map_of (a_listeners (fold do_action as A)) channel = Some es' \<and> grows es es'"
proof (induction as arbitrary: A es)
  case Nil
  then show ?case by (simp add: grows_refl)
next
  case (Cons a as)
  from do_action_grows[OF Cons.prems, of a] obtain es1
    where 1: "map_of (a_listeners (do_action a A)) channel = Some es1" "grows es es1" by blast
  from Cons.IH[OF 1(1)] obtain es2
    where 2: "map_of (a_listeners (fold do_action as (do_action a A))) channel = Some es2"
      "grows es1 es2" by blast
  from 1 2 show ?case by (auto intro: grows_trans)
qed

lemma deliver_live:
  assumes "deliver fuel beh channel data i A calls = Some (A', calls', None)"
      and "map_of (a_listeners A) channel = Some es"
      and "\<forall>j l. j < i \<longrightarrow> j < length es \<longrightarrow> es ! j = Some l \<longrightarrow> (l, data) \<in> set calls"
  shows "\<exists>es'. map_of (a_listeners A') channel = Some es'
            \<and> (\<forall>l. Some l \<in> set es' \<longrightarrow> (l, data) \<in> set calls')"
  using assms
proof (induction fuel arbitrary: i A calls es)
  case 0
  then show ?case by simp
next
  case (Suc fuel)
  show ?case
  proof (cases "i \<ge> length es")
    case True
    then have "A' = A" "calls' = calls" using Suc.prems(1,2) by simp_all
    moreover have "\<forall>l. Some l \<in> set es \<longrightarrow> (l, data) \<in> set calls"
      using Suc.prems(3) True by (metis in_set_conv_nth less_le_trans)
    ultimately show ?thesis using Suc.prems(2) by simp
  next
    case False
    then have i: "i < length es" by simp
    show ?thesis
    proof (cases "es ! i")
      case None
      then have d: "deliver fuel beh channel data (Suc i) A calls = Some (A', calls', None)"
        using Suc.prems(1,2) i by simp
      have "\<forall>j l. j < Suc i \<longrightarrow> j < length es \<longrightarrow> es ! j = Some l \<longrightarrow> (l, data) \<in> set calls"
        using Suc.prems(3) None by (metis less_Suc_eq option.distinct(1))
      from Suc.IH[OF d Suc.prems(2) this] show ?thesis .
    next
      case (Some l)
      let ?A = "fold do_action (acts (beh calls l)) A"
      let ?calls = "calls @ [(l, data)]"
      have t: "throws (beh calls l) = None"
        using Suc.prems(1,2) i Some by (auto simp: Let_def split: option.splits)
      then have d: "deliver fuel beh channel data (Suc i) ?A ?calls = Some (A', calls', None)"
        using Suc.prems(1,2) i Some by (simp add: Let_def)
      from fold_do_action_grows[OF Suc.prems(2), of "acts (beh calls l)"] obtain es1
        where e1: "map_of (a_listeners ?A) channel = Some es1" "grows es es1" by blast
      have "\<forall>j l'. j < Suc i \<longrightarrow> j < length es1 \<longrightarrow> es1 ! j = Some l' \<longrightarrow> (l', data) \<in> set ?calls"
      proof (intro allI impI)
        fix j l' assume j: "j < Suc i" "j < length es1" "es1 ! j = Some l'"
        have jl: "j < length es" using j(1) i by simp
        then have same: "es ! j = Some l'" using e1(2) j(3) by (auto simp: grows_def)
        show "(l', data) \<in> set ?calls"
        proof (cases "j = i")
          case True
          then show ?thesis using same Some by simp
        next
          case False
          then have "j < i" using j(1) by simp
          then show ?thesis using Suc.prems(3) jl same by simp
        qed
      qed
      from Suc.IH[OF d e1(1) this] show ?thesis .
    qed
  qed
qed

text \<open>
  C4, amended. \<open>broadcast\<close> walks the live listener set of the channel. When it returns
  normally, every listener subscribed to the channel at that moment has been called
  with \<open>data\<close>, also one that a listener subscribed during delivery. When every
  listener subscribed at the call only returns (none subscribes, unsubscribes or
  throws), \<open>broadcast\<close> ends, leaves the table as it is and has called exactly the
  listeners subscribed at the call, each once, in subscription order.
\<close>

theorem broadcast_live_set:
  assumes "map_of (a_listeners A) channel = Some es"
  shows "(Authority_broadcast fuel beh channel data A = Some (A', calls, None) \<longrightarrow>
            map_of (a_listeners A') channel = Some es' \<longrightarrow> Some l \<in> set es' \<longrightarrow>
            (l, data) \<in> set calls)
       \<and> ((\<forall>lg p. Some p \<in> set es \<longrightarrow> beh lg p = quiet) \<longrightarrow> length es < fuel \<longrightarrow>
            Authority_broadcast fuel beh channel data A =
              Some (A, map (\<lambda>p. (p, data)) (set_elems es), None))"
proof -
  have 1: "Authority_broadcast fuel beh channel data A = Some (A', calls, None) \<longrightarrow>
            map_of (a_listeners A') channel = Some es' \<longrightarrow> Some l \<in> set es' \<longrightarrow>
            (l, data) \<in> set calls"
  proof (intro impI)
    assume b: "Authority_broadcast fuel beh channel data A = Some (A', calls, None)"
       and m: "map_of (a_listeners A') channel = Some es'" and l: "Some l \<in> set es'"
    from b assms have "deliver fuel beh channel data 0 A [] = Some (A', calls, None)"
      by (simp add: Authority_broadcast_def)
    from deliver_live[OF this assms] m l show "(l, data) \<in> set calls" by auto
  qed
  have 2: "(\<forall>lg p. Some p \<in> set es \<longrightarrow> beh lg p = quiet) \<longrightarrow> length es < fuel \<longrightarrow>
            Authority_broadcast fuel beh channel data A =
              Some (A, map (\<lambda>p. (p, data)) (set_elems es), None)"
    using deliver_quiet[OF assms, of beh 0 fuel data "[]"] assms
    by (simp add: Authority_broadcast_def)
  from 1 2 show ?thesis by blast
qed


text \<open>The definitions a concrete broadcast unfolds to.\<close>

lemmas authority_defs =
  new_Authority_def Authority_subscribe_def Authority_unsubscribe_def Authority_broadcast_def
  set_add_def set_delete_def set_elems_def quiet_def thrower_def adder_def remover_def Let_def

text \<open>
  C3, as stated, fails: with listeners 1 and 2 subscribed in this order and listener 1
  throwing, \<open>broadcast\<close> ends with the exception of listener 1, and listener 2 has not
  been called.
\<close>

theorem broadcast_throw_counterexample:
  "set_elems [Some 1, Some 2] = [1, 2::nat]
   \<and> a_listeners (Authority_subscribe ''event'' 2 (Authority_subscribe ''event'' 1 new_Authority))
       = [(''event'', [Some 1, Some 2])]
   \<and> throws (thrower [] 1) = Some (ThrownError (ExternalError ''boom''))
   \<and> Authority_broadcast 3 thrower ''event'' ''data''
        (Authority_subscribe ''event'' 2 (Authority_subscribe ''event'' 1 new_Authority))
       = Some (Authority_subscribe ''event'' 2 (Authority_subscribe ''event'' 1 new_Authority),
               [(1, ''data'')], Some (ThrownError (ExternalError ''boom'')))"
  by (simp add: authority_defs eval_nat_numeral)

theorem broadcast_throw_propagates_witness:
  "Authority_broadcast 4 remover ''event'' ''data''
      (Authority_subscribe ''event'' 2 (Authority_subscribe ''event'' 1
        (Authority_subscribe ''event'' 4 (Authority_subscribe ''event'' 3 new_Authority))))
     = Some (\<lparr>a_listeners = [(''event'', [Some 3, None, Some 1, Some 2])]\<rparr>,
             [(3, ''data''), (1, ''data'')], Some (ThrownError (ExternalError ''boom'')))
   \<and> (1::nat) < length [(3::nat, ''data''), (1, ''data'')]
   \<and> snd ([(3::nat, ''data''), (1, ''data'')] ! 1) = ''data''
   \<and> throws (remover (take 1 [(3, ''data''), (1, ''data'')])
        (fst ([(3::nat, ''data''), (1, ''data'')] ! 1)))
       = Some (ThrownError (ExternalError ''boom''))
   \<and> [(3::nat, ''data''), (1, ''data'')] \<noteq> []
   \<and> map_of (a_listeners (Authority_subscribe ''event'' 2 (Authority_subscribe ''event'' 1
        (Authority_subscribe ''event'' 3 new_Authority)))) ''event''
       = Some ([Some 3] @ Some 1 # [Some 2])
   \<and> (\<forall>lg. thrower lg 3 = quiet)
   \<and> (\<forall>lg. throws (thrower lg 1) = Some (ThrownError (ExternalError ''boom'')))
   \<and> Authority_broadcast 2 thrower ''event'' ''data''
        (Authority_subscribe ''event'' 2 (Authority_subscribe ''event'' 1
          (Authority_subscribe ''event'' 3 new_Authority)))
       = Some (Authority_subscribe ''event'' 2 (Authority_subscribe ''event'' 1
                 (Authority_subscribe ''event'' 3 new_Authority)),
               [(3, ''data''), (1, ''data'')], Some (ThrownError (ExternalError ''boom'')))"
proof -
  let ?B = "Authority_subscribe ''event'' 2 (Authority_subscribe ''event'' 1
        (Authority_subscribe ''event'' 4 (Authority_subscribe ''event'' 3 new_Authority)))"
  let ?B' = "\<lparr>a_listeners = [(''event'', [Some 3, None, Some 1, Some 2])]\<rparr>"
  let ?cs = "[(3::nat, ''data''), (1, ''data'')]"
  let ?x = "ThrownError (ExternalError ''boom'')"
  have b: "Authority_broadcast 4 remover ''event'' ''data'' ?B = Some (?B', ?cs, Some ?x)"
    by (simp add: authority_defs eval_nat_numeral)
  have k: "(1::nat) < length ?cs" by simp
  note th1 = broadcast_throw_propagates[where fuel = 4 and beh = remover and channel = "''event''"
      and data = "''data''" and A = ?B and A' = ?B' and calls = ?cs and r = "Some ?x" and k = 1
      and x = ?x]
  have p1: "snd (?cs ! 1) = ''data''
      \<and> throws (remover (take 1 ?cs) (fst (?cs ! 1))) = Some ?x"
    using th1 b k by simp
  have p2: "?cs \<noteq> []" using th1 b by blast
  let ?A = "Authority_subscribe ''event'' 2 (Authority_subscribe ''event'' 1
        (Authority_subscribe ''event'' 3 new_Authority))"
  have m: "map_of (a_listeners ?A) ''event'' = Some ([Some 3] @ Some 1 # [Some 2])"
    by (simp add: authority_defs)
  have q: "\<forall>lg p. Some p \<in> set [Some 3] \<longrightarrow> thrower lg p = quiet"
    by (simp add: thrower_def)
  have q3: "\<forall>lg. thrower lg 3 = quiet" by (simp add: thrower_def)
  have t: "\<forall>lg. throws (thrower lg 1) = Some ?x"
    by (simp add: thrower_def)
  have f: "length [Some (3::nat)] < 2" by simp
  have a: "acts (thrower lg 1) = []" for lg by (simp add: thrower_def)
  note th3 = broadcast_throw_propagates[where fuel = 2 and beh = thrower and channel = "''event''"
      and data = "''data''" and A = ?A and pre = "[Some 3]" and l = 1 and post = "[Some 2]"
      and x = ?x]
  have p3: "Authority_broadcast 2 thrower ''event'' ''data'' ?A
       = Some (?A, ?cs, Some ?x)"
    using th3 m q t f a by simp
  from b k p1 p2 m q3 t p3 show ?thesis by simp
qed

text \<open>
  C4, as stated, fails: only listener 1 is subscribed when \<open>broadcast\<close> is called;
  listener 1 subscribes listener 2 to the same channel, and listener 2 is called with
  the data of that same broadcast.
\<close>

theorem broadcast_snapshot_counterexample:
  "set_elems [Some (1::nat)] = [1]
   \<and> a_listeners (Authority_subscribe ''event'' 1 new_Authority) = [(''event'', [Some 1])]
   \<and> Authority_broadcast 3 adder ''event'' ''data'' (Authority_subscribe ''event'' 1 new_Authority)
       = Some (\<lparr>a_listeners = [(''event'', [Some 1, Some 2])]\<rparr>,
               [(1, ''data''), (2, ''data'')], None)"
  by (simp add: authority_defs eval_nat_numeral)

theorem broadcast_live_set_witness:
  "map_of (a_listeners (Authority_subscribe ''event'' 1 new_Authority)) ''event'' = Some [Some 1]
   \<and> Authority_broadcast 3 adder ''event'' ''data'' (Authority_subscribe ''event'' 1 new_Authority)
       = Some (\<lparr>a_listeners = [(''event'', [Some 1, Some 2])]\<rparr>,
               [(1, ''data''), (2, ''data'')], None)
   \<and> map_of (a_listeners \<lparr>a_listeners = [(''event'', [Some 1, Some 2])]\<rparr>) ''event''
       = Some [Some 1, Some 2]
   \<and> Some 2 \<in> set [Some 1, Some (2::nat)]
   \<and> (2, ''data'') \<in> set [(1::nat, ''data''), (2, ''data'')]
   \<and> length [Some (1::nat)] < 3
   \<and> Authority_broadcast 3 (\<lambda>lg p. quiet) ''event'' ''data''
        (Authority_subscribe ''event'' 1 new_Authority)
       = Some (Authority_subscribe ''event'' 1 new_Authority, [(1, ''data'')], None)"
proof -
  let ?A = "Authority_subscribe ''event'' 1 new_Authority"
  let ?A' = "\<lparr>a_listeners = [(''event'', [Some 1, Some 2])]\<rparr>"
  have m: "map_of (a_listeners ?A) ''event'' = Some [Some 1]"
    by (simp add: authority_defs)
  have b: "Authority_broadcast 3 adder ''event'' ''data'' ?A
       = Some (?A', [(1, ''data''), (2, ''data'')], None)"
    by (simp add: authority_defs eval_nat_numeral)
  have m': "map_of (a_listeners ?A') ''event'' = Some [Some 1, Some 2]" by simp
  have l: "Some 2 \<in> set [Some 1, Some (2::nat)]" by simp
  have 1: "(2, ''data'') \<in> set [(1::nat, ''data''), (2, ''data'')]"
    using broadcast_live_set[OF m, of 3 adder "''data''" ?A' "[(1, ''data''), (2, ''data'')]"
        "[Some 1, Some 2]" 2] b m' l by blast
  have 2: "Authority_broadcast 3 (\<lambda>lg p. quiet) ''event'' ''data'' ?A
       = Some (?A, [(1, ''data'')], None)"
    using broadcast_live_set[OF m, of 3 "\<lambda>lg p. quiet" "''data''"] by simp
  from m b m' l 1 2 show ?thesis by simp
qed

end
